theory Spec2Isabelle
  imports Complex_Main
begin

section \<open>Numbers\<close>

text \<open>
  The components are TypeScript over three.js.  A JavaScript \<open>number\<close> is an IEEE-754
  double.  A finite double is modelled by the real number it denotes, and \<open>fl\<close> rounds a
  real number to the nearest double: 53 significant bits, ties to the even neighbour,
  gradual underflow below \<open>2 powi - 1022\<close> (where the spacing is \<open>2 powi - 1074\<close>).  Every arithmetic
  operation of the source is its exact result rounded by \<open>fl\<close>, and a decimal literal
  \<open>c\<close> of the source is \<open>fl c\<close>; unary minus and \<open>%\<close> are exact.  \<open>is_double\<close> says that a real
  number is a finite double.

  The model has no \<open>Infinity\<close> and no \<open>NaN\<close>, and one zero: where the program overflows
  (a result of magnitude \<open>2 ^ 1024\<close> or more) the model goes on with a real number that
  is no double, so the results below about values keep their inputs in a range where
  nothing overflows.  \<open>Math.PI\<close> is the double nearest to \<open>pi\<close>.  ECMAScript leaves
  the accuracy of \<open>Math.sin\<close>, \<open>Math.cos\<close> and \<open>Math.sqrt\<close> to the implementation (it
  fixes \<open>Math.sin(0) = 0\<close> and \<open>Math.cos(0) = 1\<close>); the model takes the correctly rounded
  value, which is what the engines return for the square root, and for the sine and the
  cosine at the angles \<open>0\<close>, \<open>Math.PI / 2\<close> and \<open>Math.PI\<close> that the results below evaluate.
  The one result about other angles (the distance from the sphere) uses only that the
  error of \<open>Math.sin\<close> and \<open>Math.cos\<close> is at most \<open>1 / 2 ^ 52\<close>.
\<close>

definition round_even :: "real \<Rightarrow> int" where
  "round_even x =
     (let f = \<lfloor>x\<rfloor>
      in if x - of_int f < 1 / 2 then f
         else if 1 / 2 < x - of_int f then f + 1
         else if even f then f else f + 1)"

text \<open>The exponent of the binade of \<open>x\<close>; the subnormal numbers share the lowest one.\<close>

definition binade :: "real \<Rightarrow> int" where
  "binade x = max \<lfloor>log 2 \<bar>x\<bar>\<rfloor> (- 1022)"

definition fl :: "real \<Rightarrow> real" where
  "fl x = (if x = 0 then 0
           else of_int (round_even (x / 2 powi (binade x - 52))) * 2 powi (binade x - 52))"

definition is_double :: "real \<Rightarrow> bool" where
  "is_double x \<longleftrightarrow> fl x = x \<and> \<bar>x\<bar> < 2 ^ 1024"

definition Math_PI :: real where
  "Math_PI = 884279719003555 / 281474976710656"

definition Math_sin :: "real \<Rightarrow> real" where
  "Math_sin x = fl (sin x)"

definition Math_cos :: "real \<Rightarrow> real" where
  "Math_cos x = fl (cos x)"

definition Math_sqrt :: "real \<Rightarrow> real" where
  "Math_sqrt x = fl (sqrt x)"

section \<open>Vectors\<close>

datatype vector3 = Vector3 (vx: real) (vy: real) (vz: real)

text \<open>The operations of \<open>THREE.Vector3\<close> that the components call.\<close>

definition addVectors :: "vector3 \<Rightarrow> vector3 \<Rightarrow> vector3" where
  "addVectors a b = Vector3 (fl (vx a + vx b)) (fl (vy a + vy b)) (fl (vz a + vz b))"

definition multiplyScalar :: "vector3 \<Rightarrow> real \<Rightarrow> vector3" where
  "multiplyScalar v s = Vector3 (fl (vx v * s)) (fl (vy v * s)) (fl (vz v * s))"

definition divideScalar :: "vector3 \<Rightarrow> real \<Rightarrow> vector3" where
  \<comment> \<open>\<open>multiplyScalar(1 / scalar)\<close>\<close>
  "divideScalar v s = multiplyScalar v (fl (1 / s))"

definition vlength :: "vector3 \<Rightarrow> real" where
  \<comment> \<open>\<open>Math.sqrt(x * x + y * y + z * z)\<close>\<close>
  "vlength v =
     Math_sqrt (fl (fl (fl (vx v * vx v) + fl (vy v * vy v)) + fl (vz v * vz v)))"

definition distanceTo :: "vector3 \<Rightarrow> vector3 \<Rightarrow> real" where
  "distanceTo a b =
     (let dx = fl (vx a - vx b); dy = fl (vy a - vy b); dz = fl (vz a - vz b)
      in Math_sqrt (fl (fl (fl (dx * dx) + fl (dy * dy)) + fl (dz * dz))))"

definition normalize :: "vector3 \<Rightarrow> vector3" where
  \<comment> \<open>\<open>divideScalar(this.length() || 1)\<close>\<close>
  "normalize v = divideScalar v (if vlength v = 0 then 1 else vlength v)"

definition origin :: vector3 where
  "origin = Vector3 0 0 0"

text \<open>
  The Euclidean norm of a vector, as a real number: the distance of the point from the
  origin (no function of the program; \<open>vlength\<close> is what \<open>Vector3.length\<close> computes).
\<close>

definition euclidean_norm :: "vector3 \<Rightarrow> real" where
  "euclidean_norm v = sqrt ((vx v)\<^sup>2 + (vy v)\<^sup>2 + (vz v)\<^sup>2)"

section \<open>The shared projection\<close>

text \<open>\<open>latLngToVector3\<close>, the same text in the marker layer and in \<open>animated-lines.vue\<close>.\<close>

definition latLngToVector3 :: "real \<Rightarrow> real \<Rightarrow> real \<Rightarrow> vector3" where
  "latLngToVector3 lat lng radius =
     (let phi = fl (fl (90 - lat) * fl (Math_PI / 180));
          theta = fl (fl (lng + 180) * fl (Math_PI / 180));
          x = fl (fl (- radius * Math_sin phi) * Math_cos theta);
          z = fl (fl (radius * Math_sin phi) * Math_sin theta);
          y = fl (radius * Math_cos phi)
      in Vector3 x y z)"

section \<open>Props\<close>

record location =
  name :: string
  lat :: real
  lng :: real

record connection =
  conn_from :: string
  conn_to :: string

section \<open>The scene graph\<close>

text \<open>
  three.js objects are mutable and shared: the marker collection and the Globe Group's
  \<open>children\<close> array hold the same marker objects.  The model is an explicit store: an
  object is an address (a \<^typ>\<open>nat\<close>), the store maps addresses to objects, and
  \<open>next_id\<close> is the first address not yet allocated.  A mesh or a line owns its geometry
  and its material (the components never share one), so their fields are fields of the
  object: \<open>color\<close> and \<open>opacity\<close> are the material's (for a light, \<open>color\<close> is the light's),
  \<open>points\<close> and \<open>colors\<close> are the geometry's \<open>position\<close> and \<open>color\<close> attributes (typed
  arrays of 32-bit floats: the model keeps the doubles written to them, not their
  rounding to 32 bits), and the two \<open>disposed\<close> flags record the calls of
  \<open>geometry.dispose()\<close> and \<open>material.dispose()\<close>.
\<close>

datatype kind = Scene | Group | Mesh | PointLight | AmbientLight | Line

record object3d =
  kind :: kind
  parent :: "nat option"
  children :: "nat list"
  position :: vector3
  color :: string
  opacity :: real
  points :: "vector3 list"
  colors :: "(real \<times> real \<times> real \<times> real) list"
  geometry_disposed :: bool
  material_disposed :: bool

type_synonym store = "nat \<Rightarrow> object3d"

definition new_object :: "kind \<Rightarrow> object3d" where
  "new_object k =
     \<lparr>kind = k, parent = None, children = [], position = origin, color = [],
      opacity = 1, points = [], colors = [],
      geometry_disposed = False, material_disposed = False\<rparr>"

text \<open>\<open>Object3D.remove\<close>: \<open>indexOf\<close>, and when found, clear the parent and splice.\<close>

definition remove :: "nat \<Rightarrow> nat \<Rightarrow> store \<Rightarrow> store" where
  "remove p c h =
     (if c \<in> set (children (h p))
      then (let h1 = h(c := (h c)\<lparr>parent := None\<rparr>)
            in h1(p := (h1 p)\<lparr>children := remove1 c (children (h1 p))\<rparr>))
      else h)"

text \<open>
  \<open>Object3D.add\<close>: adding an object to itself is refused; otherwise the object leaves
  its present parent, gets the new one, and is pushed onto \<open>children\<close>.
\<close>

definition add :: "nat \<Rightarrow> nat \<Rightarrow> store \<Rightarrow> store" where
  "add p c h =
     (if c = p then h
      else (let h1 = (case parent (h c) of None \<Rightarrow> h | Some q \<Rightarrow> remove q c h);
                h2 = h1(c := (h1 c)\<lparr>parent := Some p\<rparr>)
            in h2(p := (h2 p)\<lparr>children := children (h2 p) @ [c]\<rparr>)))"

text \<open>
  The marker collection and the line collection are deep Vue refs
  (\<open>ref<THREE.Group[]>([])\<close>, \<open>ref<THREE.Line[]>([])\<close>): an element read out of
  \<open>markers.value\<close> or \<open>lines.value\<close>, and so the argument \<open>forEach\<close> hands to its callback,
  is the reactive proxy of the object that was pushed, not the object.  Reading and writing
  through the proxy reach the object; identity does not: the \<open>children\<close> array of the Globe
  Group holds the objects themselves (\<open>add\<close> was given them, and the scene is a
  \<open>shallowRef\<close>), so \<open>indexOf\<close> of a proxy is \<open>-1\<close> and \<open>remove\<close> of a proxy removes nothing.
\<close>

datatype reference = Object nat | Reactive nat

definition remove_ref :: "nat \<Rightarrow> reference \<Rightarrow> store \<Rightarrow> store" where
  "remove_ref p r h = (case r of Object c \<Rightarrow> remove p c h | Reactive c \<Rightarrow> h)"

text \<open>
  \<open>Object3D.traverse\<close> visits the object, then its children recursively.  On a cyclic
  graph the source recurses until the stack overflows; the model counts the depth down and
  returns \<open>None\<close> when it is used up.  It is called with depth \<open>next_id\<close>, the number of
  objects that exist, which no path of a tree exceeds.
\<close>

fun traverse :: "nat \<Rightarrow> store \<Rightarrow> nat \<Rightarrow> nat list option" where
  "traverse 0 h i = None"
| "traverse (Suc n) h i =
     map_option (\<lambda>xss. i # concat xss) (those (map (traverse n h) (children (h i))))"

datatype js_error = TypeError | RangeError

section \<open>Application state\<close>

datatype callback = HostAnimate | LinesAnimate

record camera =
  cam_position :: vector3
  cam_lookAt :: "vector3 option"
  aspect :: real

record orbit_controls =
  target :: vector3
  enableDamping :: bool
  dampingFactor :: real
  rotateSpeed :: real
  minDistance :: real
  maxDistance :: real
  enablePan :: bool

text \<open>The statements of \<open>initScene\<close>, as the places where it can stand.\<close>

datatype pc =
    NotStarted | CreateScene | CreateCamera | CreateRenderer | CreateGroup | AddGroup
  | AwaitTexture | CreateSphere | AddLights | CreateControls | ForceRender
  | ScheduleFocus | StartAnimate | Returned

record state =
  heap :: store
  next_id :: nat
  scene :: "nat option"
  init_pc :: pc
  containerRef :: "(real \<times> real) option"
  camera :: "camera option"
  renderer :: "(real \<times> real) option"
  sphere :: "nat option"
  earthTexture :: bool
  globeGroup :: "nat option"
  controls :: "orbit_controls option"
  isDragging :: bool
  focus_timer :: bool
  markers :: "nat list"
  hoveredMarker :: "int option"
  cursor :: string
  lines :: "nat list"
  animationFrameId :: "nat option"
  lineProgress :: "nat \<rightharpoonup> real"
  raf_queue :: "(nat \<times> callback) list"
  raf_next :: nat

definition alloc :: "object3d \<Rightarrow> state \<Rightarrow> nat \<times> state" where
  "alloc obj st =
     (next_id st, st\<lparr>heap := (heap st)(next_id st := obj), next_id := Suc (next_id st)\<rparr>)"

text \<open>
  \<open>scene.value.children.find((child) => child instanceof THREE.Group)\<close>: the first child
  of the scene that is a grouping node.
\<close>

definition find_group :: "state \<Rightarrow> nat \<Rightarrow> nat option" where
  "find_group st sc =
     List.find (\<lambda>c. kind (heap st c) = Group) (children (heap st sc))"

section \<open>Marker layer\<close>

definition dispose_mesh :: "nat \<Rightarrow> store \<Rightarrow> store" where
  "dispose_mesh i h =
     (if kind (h i) = Mesh
      then h(i := (h i)\<lparr>geometry_disposed := True, material_disposed := True\<rparr>)
      else h)"

text \<open>
  The sweep over the old markers: lines 49 to 59 of the marker layer.  \<open>forEach\<close> runs
  over \<open>markers.value\<close>, so \<open>globeGroup.remove\<close> gets the reactive proxy of each marker;
  the traversal and the disposals go through the proxy to the marker and its children.
\<close>

fun clear_markers :: "nat \<Rightarrow> nat list \<Rightarrow> state \<Rightarrow> js_error + state" where
  "clear_markers g [] st = Inr st"
| "clear_markers g (m # ms) st =
     (let h1 = remove_ref g (Reactive m) (heap st)
      in case traverse (next_id st) h1 m of
           None \<Rightarrow> Inl RangeError
         | Some ids \<Rightarrow> clear_markers g ms (st\<lparr>heap := fold dispose_mesh ids h1\<rparr>))"

text \<open>The body of the loop over the locations: lines 63 to 88 (the trace line apart).\<close>

definition create_marker :: "nat \<Rightarrow> location \<Rightarrow> state \<Rightarrow> state" where
  "create_marker g loc st =
     (let pos = latLngToVector3 (lat loc) (lng loc) (fl 0.92);
          (marker, st1) = alloc (new_object Group) st;
          (sph, st2) = alloc ((new_object Mesh)\<lparr>color := ''#d5aa0f'', opacity := fl 0.9\<rparr>) st1;
          st3 = st2\<lparr>heap := add marker sph (heap st2)\<rparr>;
          (light, st4) = alloc ((new_object PointLight)\<lparr>color := ''#d5aa0f''\<rparr>) st3;
          st5 = st4\<lparr>heap := add marker light (heap st4)\<rparr>;
          st6 = st5\<lparr>heap := (heap st5)(marker := (heap st5 marker)\<lparr>position := pos\<rparr>)\<rparr>;
          st7 = st6\<lparr>heap := add g marker (heap st6)\<rparr>
      in st7\<lparr>markers := markers st7 @ [marker]\<rparr>)"

definition createMarkers :: "location list \<Rightarrow> state \<Rightarrow> js_error + state" where
  "createMarkers locations st =
     (case scene st of
        None \<Rightarrow> Inr st
      | Some sc \<Rightarrow>
          (case find_group st sc of
             None \<Rightarrow> Inr st
           | Some g \<Rightarrow>
               (case clear_markers g (markers st) st of
                  Inl e \<Rightarrow> Inl e
                | Inr st1 \<Rightarrow> Inr (fold (create_marker g) locations (st1\<lparr>markers := []\<rparr>)))))"

text \<open>
  \<open>markers.value[index]\<close>: \<open>undefined\<close> unless the index is one of the array's.
\<close>

definition marker_at :: "nat list \<Rightarrow> int \<Rightarrow> nat option" where
  "marker_at ms i = (if 0 \<le> i \<and> nat i < length ms then Some (ms ! nat i) else None)"

text \<open>
  \<open>(marker.children[0] as THREE.Mesh).material.color.set(c)\<close>.  Reading \<open>.material\<close> of
  a missing first child, or \<open>.color\<close> of the missing material of a child that is neither a
  mesh nor a line, is a \<open>TypeError\<close>.
\<close>

definition set_sphere_color :: "nat \<Rightarrow> string \<Rightarrow> state \<Rightarrow> js_error + state" where
  "set_sphere_color m c st =
     (case children (heap st m) of
        [] \<Rightarrow> Inl TypeError
      | s # _ \<Rightarrow>
          if kind (heap st s) = Mesh \<or> kind (heap st s) = Line
          then Inr (st\<lparr>heap := (heap st)(s := (heap st s)\<lparr>color := c\<rparr>)\<rparr>)
          else Inl TypeError)"

definition handleMarkerHover :: "int \<Rightarrow> bool \<Rightarrow> state \<Rightarrow> js_error + state" where
  "handleMarkerHover index isHovered st =
     (if isHovered
      then (let st1 = st\<lparr>hoveredMarker := Some index, cursor := ''pointer''\<rparr>
            in case marker_at (markers st1) index of
                 None \<Rightarrow> Inr st1
               | Some marker \<Rightarrow> set_sphere_color marker ''#FFC857'' st1)
      else (let st1 = st\<lparr>hoveredMarker := None, cursor := ''auto''\<rparr>
            in case marker_at (markers st1) index of
                 None \<Rightarrow> Inr st1
               | Some marker \<Rightarrow> set_sphere_color marker ''#d5aa0f'' st1))"

section \<open>Line layer\<close>

text \<open>
  \<open>QuadraticBezierCurve3.getPoints(divisions)\<close> of three.js: the curve sampled at
  \<open>d / divisions\<close> for \<open>d = 0, \<dots>, divisions\<close>.
\<close>

definition QuadraticBezierP0 :: "real \<Rightarrow> real \<Rightarrow> real" where
  "QuadraticBezierP0 t p = (let k = fl (1 - t) in fl (fl (k * k) * p))"

definition QuadraticBezierP1 :: "real \<Rightarrow> real \<Rightarrow> real" where
  "QuadraticBezierP1 t p = fl (fl (fl (2 * fl (1 - t)) * t) * p)"

definition QuadraticBezierP2 :: "real \<Rightarrow> real \<Rightarrow> real" where
  "QuadraticBezierP2 t p = fl (fl (t * t) * p)"

definition QuadraticBezier :: "real \<Rightarrow> real \<Rightarrow> real \<Rightarrow> real \<Rightarrow> real" where
  "QuadraticBezier t p0 p1 p2 =
     fl (fl (QuadraticBezierP0 t p0 + QuadraticBezierP1 t p1) + QuadraticBezierP2 t p2)"

definition getPoint :: "vector3 \<Rightarrow> vector3 \<Rightarrow> vector3 \<Rightarrow> real \<Rightarrow> vector3" where
  "getPoint v0 v1 v2 t =
     Vector3 (QuadraticBezier t (vx v0) (vx v1) (vx v2))
             (QuadraticBezier t (vy v0) (vy v1) (vy v2))
             (QuadraticBezier t (vz v0) (vz v1) (vz v2))"

definition getPoints :: "vector3 \<Rightarrow> vector3 \<Rightarrow> vector3 \<Rightarrow> nat \<Rightarrow> vector3 list" where
  "getPoints v0 v1 v2 divisions =
     map (\<lambda>d. getPoint v0 v1 v2 (fl (real d / real divisions))) [0..<Suc divisions]"

text \<open>The curved path between two surface points: lines 79 to 87 of \<open>animated-lines.vue\<close>.\<close>

definition curve_points :: "vector3 \<Rightarrow> vector3 \<Rightarrow> vector3 list" where
  "curve_points start end' =
     (let mid0 = multiplyScalar (addVectors start end') (fl 0.5);
          distance = distanceTo start end';
          mid = multiplyScalar (normalize mid0) (fl (fl 0.92 + fl (distance * fl 0.15)))
      in getPoints start mid end' 50)"

text \<open>
  The sweep over the old lines (lines 56 to 62).  The collection is typed
  \<open>THREE.Line[]\<close>: every entry has a geometry and one material.  Here too \<open>forEach\<close> runs
  over the deep ref \<open>lines.value\<close>, and \<open>globeGroup.remove\<close> gets a reactive proxy.
\<close>

definition dispose_line :: "nat \<Rightarrow> store \<Rightarrow> store" where
  "dispose_line l h = h(l := (h l)\<lparr>geometry_disposed := True, material_disposed := True\<rparr>)"

definition clear_line :: "nat \<Rightarrow> nat \<Rightarrow> store \<Rightarrow> store" where
  "clear_line g l h = dispose_line l (remove_ref g (Reactive l) h)"

text \<open>
  The body of the loop over the connections (lines 66 to 116, the trace line apart),
  with the connection's index.  A connection one of whose names finds no location is left
  out by the early \<open>return\<close>.
\<close>

definition create_line :: "nat \<Rightarrow> location list \<Rightarrow> nat \<times> connection \<Rightarrow> state \<Rightarrow> state" where
  "create_line g locations ic st =
     (case (List.find (\<lambda>loc. name loc = conn_from (snd ic)) locations,
            List.find (\<lambda>loc. name loc = conn_to (snd ic)) locations) of
        (Some fromLocation, Some toLocation) \<Rightarrow>
          (let start = latLngToVector3 (lat fromLocation) (lng fromLocation) (fl 0.92);
               end' = latLngToVector3 (lat toLocation) (lng toLocation) (fl 0.92);
               pts = curve_points start end';
               cols = map (\<lambda>_. (fl 0.835, fl 0.667, fl 0.059, 0)) pts;
               (line, st1) = alloc ((new_object Line)
                  \<lparr>color := ''#d5aa0f'', opacity := fl 0.8, points := pts, colors := cols\<rparr>) st;
               st2 = st1\<lparr>heap := add g line (heap st1)\<rparr>;
               st3 = st2\<lparr>lines := lines st2 @ [line]\<rparr>
           in st3\<lparr>lineProgress := (lineProgress st3)(fst ic \<mapsto> 0)\<rparr>)
      | _ \<Rightarrow> st)"

text \<open>\<open>x % 1\<close> of JavaScript: the remainder has the sign of the dividend.\<close>

definition js_mod1 :: "real \<Rightarrow> real" where
  "js_mod1 x = (if 0 \<le> x then x - of_int \<lfloor>x\<rfloor> else x - of_int \<lceil>x\<rceil>)"

definition requestAnimationFrame :: "callback \<Rightarrow> state \<Rightarrow> nat \<times> state" where
  "requestAnimationFrame cb st =
     (raf_next st,
      st\<lparr>raf_queue := raf_queue st @ [(raf_next st, cb)], raf_next := Suc (raf_next st)\<rparr>)"

definition cancelAnimationFrame :: "nat \<Rightarrow> state \<Rightarrow> state" where
  "cancelAnimationFrame i st = st\<lparr>raf_queue := filter (\<lambda>e. fst e \<noteq> i) (raf_queue st)\<rparr>"

text \<open>
  The per-line body of \<open>animate\<close> (lines 147 to 178), \<open>time\<close> being \<open>Date.now() * 0.001\<close>.
  The colour buffer is a typed array: a write past its end is dropped.
\<close>

definition animate_line :: "real \<Rightarrow> nat \<times> nat \<Rightarrow> state \<Rightarrow> state" where
  "animate_line time il st =
     (let index = fst il; line = snd il;
          progress = js_mod1 (fl (fl (time * fl 0.5) + fl (real index * fl 0.2)));
          st1 = st\<lparr>lineProgress := (lineProgress st)(index \<mapsto> progress)\<rparr>;
          totalPoints = length (points (heap st1 line));
          visiblePoints = \<lfloor>fl (real totalPoints * progress)\<rfloor>;
          opacity' = fl (fl (Math_sin (fl (time + fl (real index * fl 0.2))) * fl 0.3) + fl 0.7);
          cols = map (\<lambda>(i, c). if i < totalPoints
                                  then (1, 1, 1, if int i \<le> visiblePoints then 1 else 0)
                                  else c)
                     (enumerate 0 (colors (heap st1 line)))
      in st1\<lparr>heap := (heap st1)(line := (heap st1 line)\<lparr>opacity := opacity', colors := cols\<rparr>)\<rparr>)"

definition animate :: "real \<Rightarrow> state \<Rightarrow> state" where
  "animate now st =
     (let time = fl (now * fl 0.001);
          st1 = fold (animate_line time) (enumerate 0 (lines st)) st;
          (i, st2) = requestAnimationFrame LinesAnimate st1
      in st2\<lparr>animationFrameId := Some i\<rparr>)"

definition createLines :: "location list \<Rightarrow> connection list \<Rightarrow> real \<Rightarrow> state \<Rightarrow> state" where
  "createLines locations connections now st =
     (case scene st of
        None \<Rightarrow> st
      | Some sc \<Rightarrow>
          (case find_group st sc of
             None \<Rightarrow> st
           | Some g \<Rightarrow>
               (let st1 = st\<lparr>heap := fold (clear_line g) (lines st) (heap st)\<rparr>;
                    st2 = st1\<lparr>lines := []\<rparr>;
                    st3 = fold (create_line g locations) (enumerate 0 connections) st2
                in animate now st3)))"

text \<open>
  \<open>onUnmounted\<close> of the line layer (lines 183 to 203): it cancels the frame whose
  identifier is stored, and sweeps the lines as \<open>createLines\<close> does, through \<open>forEach\<close>
  over \<open>lines.value\<close>.
\<close>

definition lines_onUnmounted :: "state \<Rightarrow> state" where
  "lines_onUnmounted st =
     (case scene st of
        None \<Rightarrow> st
      | Some sc \<Rightarrow>
          (case find_group st sc of
             None \<Rightarrow> st
           | Some g \<Rightarrow>
               (let st1 = (case animationFrameId st of
                             None \<Rightarrow> st
                           | Some i \<Rightarrow> if i \<noteq> 0 then cancelAnimationFrame i st else st);
                    st2 = st1\<lparr>heap := fold (clear_line g) (lines st1) (heap st1)\<rparr>
                in st2\<lparr>lines := []\<rparr>)))"

section \<open>Scene host\<close>

text \<open>
  \<open>OrbitControls.update\<close> belongs to the three.js examples, not to this repository: it is
  a parameter \<open>orbit_update\<close> of every function that calls it.
\<close>

text \<open>\<open>focusOnMarkers\<close>: lines 40 to 66 of \<open>Globe.vue\<close>.\<close>

definition focusOnMarkers :: "(state \<Rightarrow> state) \<Rightarrow> location list \<Rightarrow> state \<Rightarrow> state" where
  "focusOnMarkers orbit_update locations st =
     (if length locations = 0 \<or> controls st = None then st
      else
        (let positions =
               map (\<lambda>location.
                      let phi = fl (fl (90 - lat location) * fl (Math_PI / 180));
                          theta = fl (fl (lng location + 180) * fl (Math_PI / 180))
                      in Vector3 (fl (- Math_sin phi * Math_cos theta))
                                 (Math_cos phi)
                                 (fl (Math_sin phi * Math_sin theta)))
                   locations;
             center = divideScalar (fold (\<lambda>pos acc. addVectors acc pos) positions (Vector3 0 0 0))
                        (real (length positions));
             st1 = (case camera st of
                      None \<Rightarrow> st
                    | Some cam \<Rightarrow>
                        st\<lparr>camera := Some (cam\<lparr>cam_position := multiplyScalar center (fl 2.74),
                                                 cam_lookAt := Some (Vector3 0 0 0)\<rparr>)\<rparr>);
             st2 = st1\<lparr>controls := map_option (\<lambda>c. c\<lparr>target := Vector3 0 0 0\<rparr>) (controls st1)\<rparr>
         in orbit_update st2))"

text \<open>
  The host's \<open>animate\<close> (lines 159 to 177): it schedules itself and updates the controls.
  The group's rotation and the rendered picture are not part of the state.
\<close>

definition host_animate :: "(state \<Rightarrow> state) \<Rightarrow> state \<Rightarrow> state" where
  "host_animate orbit_update st =
     (if scene st = None \<or> camera st = None \<or> renderer st = None \<or> globeGroup st = None
      then st
      else (let (i, st1) = requestAnimationFrame HostAnimate st
            in if controls st1 = None then st1 else orbit_update st1))"

text \<open>
  \<open>initScene\<close> (lines 68 to 155), one statement at a time.  \<open>init_pc\<close> names the
  statement to run next; at \<open>AwaitTexture\<close> the function is suspended on
  \<open>await textureLoader.loadAsync(\<dots>)\<close>, and a dereference of an empty reference ends it
  (\<open>Returned\<close>, as the early \<open>return\<close> of line 69 does).  Constants on which no result
  below depends (field of view and clipping planes, segment counts, light intensities,
  the renderer's options) are left out.
\<close>

definition init_step :: "(state \<Rightarrow> state) \<Rightarrow> state \<Rightarrow> state" where
  "init_step orbit_update st =
     (case init_pc st of
        NotStarted \<Rightarrow>
          (if containerRef st = None then st\<lparr>init_pc := Returned\<rparr>
           else st\<lparr>init_pc := CreateScene\<rparr>)
      | CreateScene \<Rightarrow>
          (let (sc, st1) = alloc (new_object Scene) st
           in st1\<lparr>scene := Some sc, init_pc := CreateCamera\<rparr>)
      | CreateCamera \<Rightarrow>
          (case containerRef st of
             None \<Rightarrow> st\<lparr>init_pc := Returned\<rparr>
           | Some (w, h) \<Rightarrow>
               st\<lparr>camera := Some \<lparr>cam_position = Vector3 0 0 2.5, cam_lookAt = None,
                                   aspect = fl (w / h)\<rparr>,
                  init_pc := CreateRenderer\<rparr>)
      | CreateRenderer \<Rightarrow>
          (case containerRef st of
             None \<Rightarrow> st\<lparr>init_pc := Returned\<rparr>
           | Some (w, h) \<Rightarrow> st\<lparr>renderer := Some (w, h), init_pc := CreateGroup\<rparr>)
      | CreateGroup \<Rightarrow>
          (let (g, st1) = alloc (new_object Group) st
           in st1\<lparr>globeGroup := Some g, init_pc := AddGroup\<rparr>)
      | AddGroup \<Rightarrow>
          (case (scene st, globeGroup st) of
             (Some sc, Some g) \<Rightarrow> st\<lparr>heap := add sc g (heap st), init_pc := AwaitTexture\<rparr>
           | _ \<Rightarrow> st\<lparr>init_pc := Returned\<rparr>)
      | AwaitTexture \<Rightarrow> st\<lparr>earthTexture := True, init_pc := CreateSphere\<rparr>
      | CreateSphere \<Rightarrow>
          (case globeGroup st of
             None \<Rightarrow> st\<lparr>init_pc := Returned\<rparr>
           | Some g \<Rightarrow>
               (let (s, st1) = alloc (new_object Mesh) st
                in st1\<lparr>sphere := Some s, heap := add g s (heap st1), init_pc := AddLights\<rparr>))
      | AddLights \<Rightarrow>
          (case scene st of
             None \<Rightarrow> st\<lparr>init_pc := Returned\<rparr>
           | Some sc \<Rightarrow>
               (let (ambientLight, st1) = alloc ((new_object AmbientLight)\<lparr>color := ''#ffffff''\<rparr>) st;
                    st2 = st1\<lparr>heap := add sc ambientLight (heap st1)\<rparr>;
                    (pointLight, st3) =
                       alloc ((new_object PointLight)\<lparr>color := ''#ffffff'', position := Vector3 5 3 5\<rparr>) st2
                in st3\<lparr>heap := add sc pointLight (heap st3), init_pc := CreateControls\<rparr>))
      | CreateControls \<Rightarrow>
          (if camera st \<noteq> None \<and> renderer st \<noteq> None
           then st\<lparr>controls := Some \<lparr>target = Vector3 0 0 0, enableDamping = True,
                                      dampingFactor = fl 0.05, rotateSpeed = fl 0.5, minDistance = 2,
                                      maxDistance = 5, enablePan = False\<rparr>,
                   init_pc := ForceRender\<rparr>
           else st\<lparr>init_pc := ForceRender\<rparr>)
      | ForceRender \<Rightarrow> st\<lparr>init_pc := ScheduleFocus\<rparr>
      | ScheduleFocus \<Rightarrow> st\<lparr>focus_timer := True, init_pc := StartAnimate\<rparr>
      | StartAnimate \<Rightarrow> (host_animate orbit_update st)\<lparr>init_pc := Returned\<rparr>
      | Returned \<Rightarrow> st)"

text \<open>The state when the host component is mounted, given the container (if any).\<close>

definition initial :: "(real \<times> real) option \<Rightarrow> state" where
  "initial container =
     \<lparr>heap = (\<lambda>_. new_object Scene), next_id = 0, scene = None, init_pc = NotStarted,
      containerRef = container, camera = None, renderer = None, sphere = None,
      earthTexture = False, globeGroup = None, controls = None, isDragging = False,
      focus_timer = False, markers = [], hoveredMarker = None, cursor = [],
      lines = [], animationFrameId = None, lineProgress = Map.empty,
      raf_queue = [], raf_next = 1\<rparr>"

text \<open>
  JavaScript runs a callback to completion: another callback (a watcher of a child
  layer, a timer, an animation frame) runs only while \<open>initScene\<close> is suspended or over.
  The child layers' watchers are declared without \<open>flush: 'sync'\<close>, so an assignment to
  the scene handle queues their callbacks and does not run them.
\<close>

definition yielded :: "state \<Rightarrow> bool" where
  "yielded st \<longleftrightarrow> init_pc st = NotStarted \<or> init_pc st = AwaitTexture \<or> init_pc st = Returned"

text \<open>
  The states the host's initialization can reach, with the child layers' rebuilds and
  the hover calls interleaved where the event loop can run them.  A rejected texture load
  ends \<open>initScene\<close> at the \<open>await\<close>.
\<close>

inductive reachable :: "(state \<Rightarrow> state) \<Rightarrow> state \<Rightarrow> bool"
  for orbit_update :: "state \<Rightarrow> state" where
  mounted: "reachable orbit_update (initial container)"
| statement: "reachable orbit_update st \<Longrightarrow> init_pc st \<noteq> AwaitTexture \<Longrightarrow>
              init_pc st \<noteq> Returned \<Longrightarrow> reachable orbit_update (init_step orbit_update st)"
| texture_loaded: "reachable orbit_update st \<Longrightarrow> init_pc st = AwaitTexture \<Longrightarrow>
              reachable orbit_update (init_step orbit_update st)"
| texture_failed: "reachable orbit_update st \<Longrightarrow> init_pc st = AwaitTexture \<Longrightarrow>
              reachable orbit_update (st\<lparr>init_pc := Returned\<rparr>)"
| markers_rebuild: "reachable orbit_update st \<Longrightarrow> yielded st \<Longrightarrow>
              createMarkers locations st = Inr st' \<Longrightarrow> reachable orbit_update st'"
| lines_rebuild: "reachable orbit_update st \<Longrightarrow> yielded st \<Longrightarrow>
              reachable orbit_update (createLines locations connections now st)"
| hover: "reachable orbit_update st \<Longrightarrow> yielded st \<Longrightarrow>
              handleMarkerHover index isHovered st = Inr st' \<Longrightarrow> reachable orbit_update st'"

section \<open>The browser's animation frames\<close>

text \<open>
  At a frame the browser runs the callbacks that were requested before it, each once;
  what they request in turn waits for the next frame.
\<close>

definition run_callback :: "(state \<Rightarrow> state) \<Rightarrow> real \<Rightarrow> callback \<Rightarrow> state \<Rightarrow> state" where
  "run_callback orbit_update now cb st =
     (case cb of HostAnimate \<Rightarrow> host_animate orbit_update st | LinesAnimate \<Rightarrow> animate now st)"

definition browser_frame :: "(state \<Rightarrow> state) \<Rightarrow> real \<Rightarrow> state \<Rightarrow> state" where
  "browser_frame orbit_update now st =
     fold (run_callback orbit_update now) (map snd (raf_queue st)) (st\<lparr>raf_queue := []\<rparr>)"

text \<open>The number of line-layer animation loops alive: its callbacks waiting for a frame.\<close>

definition lines_loops :: "state \<Rightarrow> nat" where
  "lines_loops st = length (filter (\<lambda>e. snd e = LinesAnimate) (raf_queue st))"

section \<open>Well-formed states\<close>

text \<open>
  The model's addresses are numbers, so a state can mention an address that no object
  has yet; the program's references cannot.  \<open>store_ok\<close> says that the store is closed:
  the children of every object that exists, and the scene, exist (and the scene handle
  refers to a scene).
\<close>

definition store_ok :: "state \<Rightarrow> bool" where
  "store_ok st \<longleftrightarrow>
     (\<forall>i<next_id st. \<forall>c\<in>set (children (heap st i)). c < next_id st) \<and>
     (case scene st of None \<Rightarrow> True | Some sc \<Rightarrow> sc < next_id st \<and> kind (heap st sc) = Scene)"

text \<open>
  A marker as \<open>createMarkers\<close> builds it: a grouping node with a mesh and a point light,
  both childless.  \<open>markers_ok\<close> says the marker collection holds such objects only;
  \<open>flat\<close> is what the traversal needs of one; \<open>sphere_color\<close> reads the colour of a
  marker's first child.
\<close>

definition marker_shaped :: "store \<Rightarrow> nat \<Rightarrow> bool" where
  "marker_shaped h m =
     (case children (h m) of
        [s, l] \<Rightarrow> kind (h s) = Mesh \<and> children (h s) = [] \<and>
                  kind (h l) = PointLight \<and> children (h l) = []
      | _ \<Rightarrow> False)"

definition markers_ok :: "state \<Rightarrow> bool" where
  "markers_ok st \<longleftrightarrow> (\<forall>m\<in>set (markers st). marker_shaped (heap st) m)"

definition flat :: "store \<Rightarrow> nat \<Rightarrow> bool" where
  "flat h m = (\<forall>c\<in>set (children (h m)). children (h c) = [])"

definition sphere_color :: "state \<Rightarrow> nat \<Rightarrow> string option" where
  "sphere_color st m = (case children (heap st m) of [] \<Rightarrow> None | s # _ \<Rightarrow> Some (color (heap st s)))"

section \<open>What a rebuild computes\<close>

text \<open>
  The objects a marker rebuild allocates, three for each location, at the addresses
  \<open>n\<close>, \<open>n + 1\<close>, \<open>n + 2\<close>; the addresses of the markers themselves; and the sweep and the
  whole rebuild as functions (the traversal of a well-formed marker visits the marker and
  its two children).
\<close>

definition marker_object :: "nat \<Rightarrow> nat \<Rightarrow> location \<Rightarrow> object3d" where
  "marker_object g n loc =
     \<lparr>kind = Group, parent = Some g, children = [Suc n, Suc (Suc n)],
      position = latLngToVector3 (lat loc) (lng loc) (fl 0.92), color = [], opacity = 1,
      points = [], colors = [], geometry_disposed = False, material_disposed = False\<rparr>"

definition sphere_object :: "nat \<Rightarrow> object3d" where
  "sphere_object n =
     \<lparr>kind = Mesh, parent = Some n, children = [], position = origin, color = ''#d5aa0f'',
      opacity = fl 0.9, points = [], colors = [],
      geometry_disposed = False, material_disposed = False\<rparr>"

definition light_object :: "nat \<Rightarrow> object3d" where
  "light_object n =
     \<lparr>kind = PointLight, parent = Some n, children = [], position = origin,
      color = ''#d5aa0f'', opacity = 1, points = [], colors = [],
      geometry_disposed = False, material_disposed = False\<rparr>"

definition new_ids :: "nat \<Rightarrow> nat \<Rightarrow> nat list" where
  "new_ids n N = map (\<lambda>k. n + 3 * k) [0..<N]"

definition clear_step :: "nat \<Rightarrow> nat \<Rightarrow> store \<Rightarrow> store" where
  "clear_step g m h =
     (let h1 = remove_ref g (Reactive m) h in fold dispose_mesh (m # children (h1 m)) h1)"

definition cleared :: "nat \<Rightarrow> state \<Rightarrow> state" where
  "cleared g st = st\<lparr>heap := fold (clear_step g) (markers st) (heap st), markers := []\<rparr>"

definition rebuilt :: "nat \<Rightarrow> location list \<Rightarrow> state \<Rightarrow> state" where
  "rebuilt g locs st = fold (create_marker g) locs (cleared g st)"

text \<open>
  For the line layer: whether a connection's two names find a location, the two end
  points of its arc, the object built for it, the connections kept out of an indexed list,
  the addresses of the new lines, and the sweep and the rebuild (before \<open>animate\<close>).
\<close>

definition resolves :: "location list \<Rightarrow> connection \<Rightarrow> bool" where
  "resolves locs c \<longleftrightarrow>
     List.find (\<lambda>loc. name loc = conn_from c) locs \<noteq> None \<and>
     List.find (\<lambda>loc. name loc = conn_to c) locs \<noteq> None"

definition arc_start :: "location list \<Rightarrow> connection \<Rightarrow> vector3" where
  "arc_start locs c =
     (case List.find (\<lambda>loc. name loc = conn_from c) locs of
        None \<Rightarrow> origin | Some l \<Rightarrow> latLngToVector3 (lat l) (lng l) (fl 0.92))"

definition arc_end :: "location list \<Rightarrow> connection \<Rightarrow> vector3" where
  "arc_end locs c =
     (case List.find (\<lambda>loc. name loc = conn_to c) locs of
        None \<Rightarrow> origin | Some l \<Rightarrow> latLngToVector3 (lat l) (lng l) (fl 0.92))"

definition line_object :: "nat \<Rightarrow> location list \<Rightarrow> connection \<Rightarrow> object3d" where
  "line_object g locs c =
     \<lparr>kind = Line, parent = Some g, children = [], position = origin, color = ''#d5aa0f'',
      opacity = fl 0.8, points = curve_points (arc_start locs c) (arc_end locs c),
      colors = map (\<lambda>_. (fl 0.835, fl 0.667, fl 0.059, 0))
                 (curve_points (arc_start locs c) (arc_end locs c)),
      geometry_disposed = False, material_disposed = False\<rparr>"

definition kept :: "location list \<Rightarrow> (nat \<times> connection) list \<Rightarrow> connection list" where
  "kept locs ics = filter (resolves locs) (map snd ics)"

definition line_ids :: "nat \<Rightarrow> nat \<Rightarrow> nat list" where
  "line_ids n R = map (\<lambda>k. n + k) [0..<R]"

definition lines_cleared :: "nat \<Rightarrow> state \<Rightarrow> state" where
  "lines_cleared g st = st\<lparr>heap := fold (clear_line g) (lines st) (heap st), lines := []\<rparr>"

definition lines_rebuilt :: "nat \<Rightarrow> location list \<Rightarrow> connection list \<Rightarrow> state \<Rightarrow> state" where
  "lines_rebuilt g locs conns st =
     fold (create_line g locs) (enumerate 0 conns) (lines_cleared g st)"

section \<open>Invariants of the initialization\<close>

text \<open>
  \<open>OrbitControls.update\<close> moves the camera and keeps its own state: \<open>camera_only\<close> is what
  the results below assume of it.  \<open>has_group\<close>: the scene handle is set and the structural
  search finds the host's Globe Group; \<open>empty_scene\<close>: it is set and the scene has no child.
  \<open>init_inv\<close> and \<open>markers_inv\<close> hold in every reachable state; \<open>alloc_add\<close> is \<open>new\<close>
  followed by \<open>add\<close>.
\<close>

definition camera_only :: "(state \<Rightarrow> state) \<Rightarrow> bool" where
  "camera_only orbit_update \<longleftrightarrow>
     (\<forall>s. orbit_update s = s\<lparr>camera := camera (orbit_update s), controls := controls (orbit_update s)\<rparr>)"

definition has_group :: "state \<Rightarrow> bool" where
  "has_group st \<longleftrightarrow>
     (case scene st of
        None \<Rightarrow> False
      | Some sc \<Rightarrow> (case globeGroup st of None \<Rightarrow> False | Some g \<Rightarrow> find_group st sc = Some g))"

definition empty_scene :: "state \<Rightarrow> bool" where
  "empty_scene st \<longleftrightarrow>
     (case scene st of None \<Rightarrow> False | Some sc \<Rightarrow> children (heap st sc) = [])"

definition init_inv :: "state \<Rightarrow> bool" where
  "init_inv st \<longleftrightarrow>
     store_ok st \<and>
     (case init_pc st of
        NotStarted \<Rightarrow> scene st = None
      | CreateScene \<Rightarrow> scene st = None \<and> containerRef st \<noteq> None
      | CreateCamera \<Rightarrow> empty_scene st \<and> containerRef st \<noteq> None
      | CreateRenderer \<Rightarrow> empty_scene st \<and> containerRef st \<noteq> None
      | CreateGroup \<Rightarrow> empty_scene st
      | AddGroup \<Rightarrow>
          empty_scene st \<and>
          (case globeGroup st of
             None \<Rightarrow> False
           | Some g \<Rightarrow> g < next_id st \<and> kind (heap st g) = Group \<and> parent (heap st g) = None)
      | _ \<Rightarrow> scene st = None \<or> has_group st)"

definition markers_inv :: "state \<Rightarrow> bool" where
  "markers_inv st \<longleftrightarrow>
     (\<forall>m\<in>set (markers st).
        m < next_id st \<and> kind (heap st m) = Group \<and> marker_shaped (heap st) m) \<and>
     (case globeGroup st of
        None \<Rightarrow> True
      | Some g \<Rightarrow> g < next_id st \<and> kind (heap st g) = Group \<and> g \<notin> set (markers st)) \<and>
     (case scene st of
        None \<Rightarrow> True
      | Some sc \<Rightarrow> (case find_group st sc of None \<Rightarrow> True | Some g \<Rightarrow> g \<notin> set (markers st)))"

definition alloc_add :: "nat \<Rightarrow> object3d \<Rightarrow> state \<Rightarrow> state" where
  "alloc_add p obj st =
     (snd (alloc obj st))\<lparr>heap := add p (next_id st) (heap (snd (alloc obj st)))\<rparr>"

section \<open>Concrete states and inputs\<close>

text \<open>
  \<open>scene0\<close> is the state in which \<open>initScene\<close>, mounted in a container of 800 by 600,
  waits for the texture: the scene at address 0 with the Globe Group, address 1, as its
  only child.  \<open>after_create_scene\<close> is the state two statements after mounting.
\<close>

definition scene0 :: state where
  "scene0 =
     \<lparr>heap = (\<lambda>_. new_object Scene)
         (0 := (new_object Scene)\<lparr>children := [1]\<rparr>,
          1 := (new_object Group)\<lparr>parent := Some 0\<rparr>),
      next_id = 2, scene = Some 0, init_pc = AwaitTexture,
      containerRef = Some (800, 600),
      camera = Some \<lparr>cam_position = Vector3 0 0 2.5, cam_lookAt = None, aspect = fl (800 / 600)\<rparr>,
      renderer = Some (800, 600), sphere = None, earthTexture = False, globeGroup = Some 1,
      controls = None, isDragging = False, focus_timer = False,
      markers = [], hoveredMarker = None, cursor = [],
      lines = [], animationFrameId = None, lineProgress = Map.empty,
      raf_queue = [], raf_next = 1\<rparr>"

definition after_create_scene :: state where
  "after_create_scene = init_step (\<lambda>s. s) (init_step (\<lambda>s. s) (initial (Some (800, 600))))"

definition twice :: state where
  "twice = createLines [] [] 16 (createLines [] [] 0 scene0)"

definition loc_A :: location where "loc_A = \<lparr>name = ''A'', lat = 0, lng = 0\<rparr>"

definition loc_B :: location where "loc_B = \<lparr>name = ''B'', lat = 30, lng = 45\<rparr>"

definition conn_AB :: connection where "conn_AB = \<lparr>conn_from = ''A'', conn_to = ''B''\<rparr>"

definition conn_AC :: connection where "conn_AC = \<lparr>conn_from = ''A'', conn_to = ''C''\<rparr>"

definition controls0 :: orbit_controls where
  "controls0 = \<lparr>target = Vector3 1 2 3, enableDamping = True, dampingFactor = fl 0.05,
                rotateSpeed = fl 0.5, minDistance = 2, maxDistance = 5, enablePan = False\<rparr>"

section \<open>Rounding\<close>

text \<open>
  What the results below use of \<open>fl\<close>: it commutes with the sign, it is computed within a
  binade by rounding a quotient to an integer, its error is half a unit in the last place,
  and it leaves the doubles alone.
\<close>

lemma round_even_unique:
  assumes "\<bar>x - of_int k\<bar> < 1 / 2"
  shows "round_even x = k"
proof -
  have "\<lfloor>x\<rfloor> = k \<or> \<lfloor>x\<rfloor> = k - 1" using assms by linarith
  then show ?thesis
  proof
    assume f: "\<lfloor>x\<rfloor> = k"
    then have "x - of_int k < 1 / 2" using assms by linarith
    then show ?thesis by (simp add: round_even_def f)
  next
    assume f: "\<lfloor>x\<rfloor> = k - 1"
    have "1 / 2 < x - of_int (k - 1)" using assms by (simp only: of_int_diff of_int_1)
    then show ?thesis by (simp add: round_even_def f)
  qed
qed

lemma round_even_of_int [simp]: "round_even (of_int k) = k"
  by (rule round_even_unique) simp

lemma round_even_cases:
  "round_even x = \<lfloor>x\<rfloor> \<and> x - of_int \<lfloor>x\<rfloor> \<le> 1 / 2 \<or>
   round_even x = \<lfloor>x\<rfloor> + 1 \<and> 1 / 2 \<le> x - of_int \<lfloor>x\<rfloor>"
  by (auto simp: round_even_def Let_def)

lemma round_even_error: "\<bar>of_int (round_even x) - x\<bar> \<le> 1 / 2"
  using round_even_cases [of x] by (auto; linarith)

lemma round_even_ge:
  assumes "of_int k \<le> x"
  shows "k \<le> round_even x"
proof -
  have "k \<le> \<lfloor>x\<rfloor>" using assms by (simp add: le_floor_iff)
  then show ?thesis using round_even_cases [of x] by auto
qed

lemma round_even_le:
  assumes "x \<le> of_int k"
  shows "round_even x \<le> k"
proof (cases "x = of_int k")
  case True then show ?thesis by simp
next
  case False
  then have "x < of_int k" using assms by simp
  then have "\<lfloor>x\<rfloor> < k" by (simp add: floor_less_iff)
  then show ?thesis using round_even_cases [of x] by auto
qed

lemma round_even_minus: "round_even (- x) = - round_even x"
proof (cases "x = of_int \<lfloor>x\<rfloor>")
  case True
  then obtain k where "x = of_int k" ..
  then have "round_even (- x) = round_even (of_int (- k))" by simp
  then show ?thesis using \<open>x = of_int k\<close> by (simp del: of_int_minus)
next
  case False
  let ?f = "\<lfloor>x\<rfloor>"
  have lt: "of_int ?f < x" using False by (metis floor_correct less_eq_real_def)
  have fm: "\<lfloor>- x\<rfloor> = - ?f - 1" using lt by linarith
  consider "x - of_int ?f < 1 / 2" | "1 / 2 < x - of_int ?f" | "x - of_int ?f = 1 / 2"
    by linarith
  then show ?thesis
  proof cases
    case 1
    then show ?thesis by (simp add: round_even_def fm)
  next
    case 2
    then show ?thesis by (simp add: round_even_def fm)
  next
    case 3
    then show ?thesis by (simp add: round_even_def fm Let_def)
  qed
qed

lemma binade_minus [simp]: "binade (- x) = binade x"
  by (simp add: binade_def)

lemma binade_ge: "- 1022 \<le> binade x"
  by (simp add: binade_def)

lemma powr_powi: "2 powr (of_int e) = (2::real) powi e"
  using powr_real_of_int' [of 2 e] by simp

lemma binade_eq:
  assumes "2 powi e \<le> \<bar>x\<bar>" "\<bar>x\<bar> < 2 powi (e + 1)" "- 1022 \<le> e"
  shows "binade x = e"
proof -
  have "(0::real) < 2 powi e" by simp
  then have "0 < \<bar>x\<bar>" using assms(1) by linarith
  moreover have "2 powr (of_int e + 1) = (2::real) powi (e + 1)"
    using powr_powi [of "e + 1"] by simp
  ultimately have "\<lfloor>log 2 \<bar>x\<bar>\<rfloor> = e"
    using assms(1,2) by (simp add: floor_log_eq_powr_iff powr_powi)
  then show ?thesis using assms(3) by (simp add: binade_def)
qed

lemma binade_upper:
  assumes "x \<noteq> 0"
  shows "\<bar>x\<bar> < 2 powi (binade x + 1)"
proof -
  let ?k = "\<lfloor>log 2 \<bar>x\<bar>\<rfloor>"
  have "0 < \<bar>x\<bar>" using assms by simp
  then have "\<bar>x\<bar> < 2 powr (of_int ?k + 1)"
    using floor_log_eq_powr_iff [of "\<bar>x\<bar>" 2 ?k] by simp
  then have "\<bar>x\<bar> < 2 powi (?k + 1)" using powr_powi [of "?k + 1"] by simp
  also have "\<dots> \<le> 2 powi (binade x + 1)"
    by (rule power_int_increasing) (simp_all add: binade_def)
  finally show ?thesis .
qed

lemma binade_lower:
  assumes "x \<noteq> 0"
  shows "2 powi (binade x) \<le> \<bar>x\<bar> \<or> binade x = - 1022"
proof -
  let ?k = "\<lfloor>log 2 \<bar>x\<bar>\<rfloor>"
  have "0 < \<bar>x\<bar>" using assms by simp
  then have "2 powr (of_int ?k) \<le> \<bar>x\<bar>"
    using floor_log_eq_powr_iff [of "\<bar>x\<bar>" 2 ?k] by simp
  then have "2 powi ?k \<le> \<bar>x\<bar>" by (simp add: powr_powi)
  then show ?thesis by (cases "- 1022 \<le> ?k") (simp_all add: binade_def max_def)
qed

lemma fl_0 [simp]: "fl 0 = 0"
  by (simp add: fl_def)

lemma fl_minus: "fl (- x) = - fl x"
  by (simp add: fl_def round_even_minus)

lemma fl_binade:
  assumes "2 powi e \<le> \<bar>x\<bar>" "\<bar>x\<bar> < 2 powi (e + 1)" "- 1022 \<le> e"
  shows "fl x = of_int (round_even (x / 2 powi (e - 52))) * 2 powi (e - 52)"
proof -
  have "(0::real) < 2 powi e" by simp
  then have "0 < \<bar>x\<bar>" using assms(1) by linarith
  then have "x \<noteq> 0" by simp
  then show ?thesis by (simp add: fl_def binade_eq [OF assms])
qed

text \<open>The rounding error: half a unit in the last place.\<close>

lemma fl_error_q: "\<bar>fl x - x\<bar> \<le> 2 powi (binade x - 53)"
proof (cases "x = 0")
  case True then show ?thesis by simp
next
  case False
  let ?q = "(2::real) powi (binade x - 52)"
  have q: "0 < ?q" by simp
  have "fl x - x = (of_int (round_even (x / ?q)) - x / ?q) * ?q"
    using False by (simp add: fl_def field_simps)
  then have "\<bar>fl x - x\<bar> = \<bar>of_int (round_even (x / ?q)) - x / ?q\<bar> * ?q"
    by (simp add: abs_mult)
  also have "\<dots> \<le> 1 / 2 * ?q"
    by (rule mult_right_mono [OF round_even_error]) simp
  also have "\<dots> = 2 powi (binade x - 53)"
    using power_int_add [of "2::real" "binade x - 53" 1] by simp
  finally show ?thesis .
qed

lemma fl_error: "\<bar>fl x - x\<bar> \<le> \<bar>x\<bar> / 2 ^ 53 + 1 / 2 ^ 1075"
proof (cases "x = 0")
  case True then show ?thesis by simp
next
  case False
  have e: "\<bar>fl x - x\<bar> \<le> 2 powi (binade x - 53)" by (rule fl_error_q)
  from binade_lower [OF False] show ?thesis
  proof
    assume "2 powi (binade x) \<le> \<bar>x\<bar>"
    moreover have "(2::real) powi (binade x - 53) = 2 powi (binade x) / 2 ^ 53"
      by (simp add: power_int_diff)
    ultimately have "2 powi (binade x - 53) \<le> \<bar>x\<bar> / 2 ^ 53"
      by (simp add: divide_right_mono)
    moreover have "(0::real) \<le> 1 / 2 ^ 1075" by simp
    ultimately show ?thesis using e by linarith
  next
    assume "binade x = - 1022"
    then have "(2::real) powi (binade x - 53) = 1 / 2 ^ 1075"
      by (simp add: power_int_minus_divide)
    moreover have "0 \<le> \<bar>x\<bar> / 2 ^ 53" by simp
    ultimately show ?thesis using e by linarith
  qed
qed

text \<open>An integer of at most 53 bits, scaled by a power of two, is a value of \<open>fl\<close>.\<close>

lemma fl_representable_less:
  assumes "\<bar>k\<bar> < 2 ^ 53" "- 1074 \<le> m"
  shows "fl (of_int k * 2 powi m) = of_int k * 2 powi m"
proof (cases "k = 0")
  case True then show ?thesis by simp
next
  case False
  let ?v = "of_int k * (2::real) powi m"
  let ?b = "binade ?v"
  have v0: "?v \<noteq> 0" using False by simp
  have av: "\<bar>?v\<bar> = of_int \<bar>k\<bar> * 2 powi m" by (simp add: abs_mult)
  have "of_int \<bar>k\<bar> < (2::real) ^ 53"
    using assms(1) by (metis of_int_less_numeral_power_cancel_iff)
  then have lt: "\<bar>?v\<bar> < 2 powi (m + 53)" by (simp add: av power_int_add)
  have b: "?b < m + 53"
  proof (rule ccontr)
    assume "\<not> ?b < m + 53"
    then have ge: "m + 53 \<le> ?b" by simp
    then have "?b \<noteq> - 1022" using assms(2) by simp
    with binade_lower [OF v0] have "2 powi ?b \<le> \<bar>?v\<bar>" by simp
    moreover have "(2::real) powi (m + 53) \<le> 2 powi ?b"
      by (rule power_int_increasing [OF ge]) simp
    ultimately show False using lt by linarith
  qed
  define d where "d = nat (m + 52 - ?b)"
  have d: "int d = m + 52 - ?b" using b by (simp add: d_def)
  have "?v / 2 powi (?b - 52) = of_int k * 2 powi (m - (?b - 52))"
    by (simp add: power_int_diff)
  also have "m - (?b - 52) = int d" using d by simp
  also have "of_int k * (2::real) powi (int d) = of_int (k * 2 ^ d)" by simp
  finally have "round_even (?v / 2 powi (?b - 52)) = k * 2 ^ d"
    by (simp only: round_even_of_int)
  then have "fl ?v = of_int (k * 2 ^ d) * 2 powi (?b - 52)"
    using v0 by (simp add: fl_def)
  also have "\<dots> = of_int k * (2 powi (int d) * 2 powi (?b - 52))" by simp
  also have "2 powi (int d) * (2::real) powi (?b - 52) = 2 powi m"
    using power_int_add [of "2::real" "int d" "?b - 52"] d by simp
  finally show ?thesis .
qed

lemma fl_representable:
  assumes "\<bar>k\<bar> \<le> 2 ^ 53" "- 1074 \<le> m"
  shows "fl (of_int k * 2 powi m) = of_int k * 2 powi m"
proof (cases "\<bar>k\<bar> = 2 ^ 53")
  case False
  then show ?thesis using assms by (intro fl_representable_less) simp_all
next
  case True
  then have "k = 2 ^ 53 \<or> k = - (2 ^ 53)" by linarith
  then obtain j :: int where j: "k = 2 * j" "\<bar>j\<bar> = 2 ^ 52" by auto
  have "of_int k * (2::real) powi m = of_int j * 2 powi (m + 1)"
    by (simp add: j(1) power_int_add)
  moreover have "fl (of_int j * 2 powi (m + 1)) = of_int j * 2 powi (m + 1)"
    using assms(2) j(2) by (intro fl_representable_less) simp_all
  ultimately show ?thesis by simp
qed

lemma fl_idem [simp]: "fl (fl x) = fl x"
proof (cases "x = 0")
  case True then show ?thesis by simp
next
  case False
  let ?q = "(2::real) powi (binade x - 52)"
  have "\<bar>x / ?q\<bar> = \<bar>x\<bar> / ?q" by simp
  also have "\<dots> < 2 powi (binade x + 1) / ?q"
    by (rule divide_strict_right_mono [OF binade_upper [OF False]]) simp
  also have "\<dots> = 2 ^ 53" by (simp add: power_int_diff [symmetric])
  finally have lt: "\<bar>x / ?q\<bar> < 2 ^ 53" .
  have a: "x / ?q \<le> of_int (2 ^ 53)" and b: "of_int (- (2 ^ 53)) \<le> x / ?q"
    using lt unfolding of_int_minus of_int_power of_int_numeral by linarith+
  have "round_even (x / ?q) \<le> 2 ^ 53" "- (2 ^ 53) \<le> round_even (x / ?q)"
    using round_even_le [OF a] round_even_ge [OF b] by simp_all
  then have k: "\<bar>round_even (x / ?q)\<bar> \<le> 2 ^ 53" by simp
  have m: "- 1074 \<le> binade x - 52" using binade_ge [of x] by simp
  show ?thesis
    using fl_representable [OF k m] False by (simp add: fl_def)
qed

lemma fl_int:
  assumes "\<bar>k\<bar> \<le> 2 ^ 53"
  shows "fl (of_int k) = of_int k"
  using fl_representable [OF assms, of 0] by simp

lemma fl_numeral [simp]: "fl 1 = 1" "fl 2 = 2" "fl 90 = 90" "fl 180 = 180"
  using fl_int [of 1] fl_int [of 2] fl_int [of 90] fl_int [of 180] by simp_all

lemma fl_near_one:
  assumes "\<bar>x - 1\<bar> \<le> 1 / 2 ^ 55"
  shows "fl x = 1"
proof (cases "1 \<le> x")
  case True
  have "fl x = of_int (round_even (x / 2 powi (0 - 52))) * 2 powi (0 - 52)"
    using True assms by (intro fl_binade) (simp_all add: abs_le_iff)
  moreover have "round_even (x / 2 powi (0 - 52)) = 2 ^ 52"
    using True assms by (intro round_even_unique) (simp add: power_int_minus_divide abs_le_iff)
  ultimately show ?thesis by (simp add: power_int_minus_divide)
next
  case False
  have "fl x = of_int (round_even (x / 2 powi (- 1 - 52))) * 2 powi (- 1 - 52)"
    using False assms by (intro fl_binade) (simp_all add: abs_le_iff power_int_minus_divide)
  moreover have "round_even (x / 2 powi (- 1 - 52)) = 2 ^ 53"
    using False assms by (intro round_even_unique) (simp add: power_int_minus_divide abs_le_iff)
  ultimately show ?thesis by (simp add: power_int_minus_divide)
qed

lemma fl_within_binade:
  assumes "2 powi e \<le> x" "x < 2 powi (e + 1)" "- 1022 \<le> e"
  shows "2 powi e \<le> fl x" and "fl x \<le> 2 powi (e + 1)"
proof -
  let ?q = "(2::real) powi (e - 52)"
  have "(0::real) < 2 powi e" by simp
  then have x: "0 < x" using assms(1) by linarith
  have f: "fl x = of_int (round_even (x / ?q)) * ?q"
    using assms x by (intro fl_binade) simp_all
  have "of_int (2 ^ 52) = 2 powi e / ?q" by (simp add: power_int_diff)
  also have "\<dots> \<le> x / ?q" by (rule divide_right_mono [OF assms(1)]) simp
  finally have "2 ^ 52 \<le> round_even (x / ?q)" by (rule round_even_ge)
  then have "of_int (2 ^ 52) \<le> (of_int (round_even (x / ?q)) :: real)"
    by (simp only: of_int_le_iff)
  then have "(2::real) ^ 52 \<le> of_int (round_even (x / ?q))" by simp
  then have "2 ^ 52 * ?q \<le> fl x" unfolding f by (rule mult_right_mono) simp
  moreover have "2 ^ 52 * ?q = 2 powi e"
    using power_int_add [of "2::real" 52 "e - 52"] by simp
  ultimately show "2 powi e \<le> fl x" by simp
  have "x / ?q \<le> 2 powi (e + 1) / ?q"
    by (rule divide_right_mono) (use assms(2) in simp_all)
  also have "\<dots> = of_int (2 ^ 53)" by (simp add: power_int_diff [symmetric])
  finally have "round_even (x / ?q) \<le> 2 ^ 53" by (rule round_even_le)
  then have "(of_int (round_even (x / ?q)) :: real) \<le> of_int (2 ^ 53)"
    by (simp only: of_int_le_iff)
  then have "of_int (round_even (x / ?q)) \<le> (2::real) ^ 53" by simp
  then have "fl x \<le> 2 ^ 53 * ?q" unfolding f by (rule mult_right_mono) simp
  moreover have "2 ^ 53 * ?q = 2 powi (e + 1)"
    using power_int_add [of "2::real" 53 "e - 52"] by (simp add: add.commute)
  ultimately show "fl x \<le> 2 powi (e + 1)" by simp
qed

text \<open>Below half the least subnormal number, everything is rounded to zero.\<close>

lemma fl_tiny:
  assumes "\<bar>t\<bar> \<le> 1 / 2 ^ 1076"
  shows "fl t = 0"
proof (cases "t = 0")
  case True then show ?thesis by simp
next
  case False
  have b: "binade t = - 1022"
  proof (rule ccontr)
    assume n: "binade t \<noteq> - 1022"
    with binade_lower [OF False] have "2 powi binade t \<le> \<bar>t\<bar>" by simp
    moreover have "(2::real) powi (- 1022) \<le> 2 powi binade t"
      by (rule power_int_increasing [OF binade_ge]) simp
    moreover have "(1::real) / 2 ^ 1076 < 2 powi (- 1022)" by (simp add: power_int_minus_divide)
    ultimately show False using assms by linarith
  qed
  have "\<bar>t\<bar> * 2 ^ 1074 \<le> (1 / 2 ^ 1076) * 2 ^ 1074"
    using assms by (rule mult_right_mono) simp
  then have "\<bar>t / 2 powi (- 1022 - 52) - of_int 0\<bar> < 1 / 2"
    by (simp add: power_int_minus_divide abs_mult)
  then have "round_even (t / 2 powi (- 1022 - 52)) = 0" by (rule round_even_unique)
  then show ?thesis using False by (simp add: fl_def b)
qed

section \<open>The reference angles\<close>

text \<open>
  \<open>Math.PI\<close> lies below \<open>pi\<close>, by between \<open>1.2e-16\<close> and \<open>1.3e-16\<close> (Machin's formula and
  the alternating series of the arc tangent).  Hence the angles that the projection
  computes for \<open>lat = 0, lng = 0\<close> are \<open>Math.PI / 2\<close> and \<open>Math.PI\<close>, where the sine and the
  cosine that should be \<open>1\<close> and \<open>-1\<close> are so, and the two that should vanish do not.
\<close>

lemma arctan_bounds:
  fixes x :: real
  assumes "0 < x" "x \<le> 1"
  shows "(\<Sum>i<2 * n. (- 1) ^ i * (1 / real (i * 2 + 1) * x ^ (i * 2 + 1))) \<le> arctan x"
    and "arctan x \<le> (\<Sum>i<2 * n + 1. (- 1) ^ i * (1 / real (i * 2 + 1) * x ^ (i * 2 + 1)))"
proof -
  have x: "\<bar>x\<bar> \<le> 1" using assms by simp
  have "0 < 1 / real (0 * 2 + 1) * x ^ (0 * 2 + 1)" using assms by simp
  with summable_Leibniz(2) [OF zeroseq_arctan_series [OF x] monoseq_arctan_series [OF x]]
  have "(\<Sum>i. (- 1) ^ i * (1 / real (i * 2 + 1) * x ^ (i * 2 + 1)))
      \<in> {\<Sum>i<2 * n. (- 1) ^ i * (1 / real (i * 2 + 1) * x ^ (i * 2 + 1)) ..
         \<Sum>i<2 * n + 1. (- 1) ^ i * (1 / real (i * 2 + 1) * x ^ (i * 2 + 1))}"
    by blast
  then show "(\<Sum>i<2 * n. (- 1) ^ i * (1 / real (i * 2 + 1) * x ^ (i * 2 + 1))) \<le> arctan x"
    and "arctan x \<le> (\<Sum>i<2 * n + 1. (- 1) ^ i * (1 / real (i * 2 + 1) * x ^ (i * 2 + 1)))"
    by (simp_all add: arctan_series [OF x])
qed

lemma pi_lower: "Math_PI + 12 / 10 ^ 17 \<le> pi"
proof -
  have a: "(\<Sum>i<2 * 7. (- 1) ^ i * (1 / real (i * 2 + 1) * (1 / 5) ^ (i * 2 + 1))) \<le> arctan (1 / 5 :: real)"
    by (rule arctan_bounds) simp_all
  have b: "arctan (1 / 239 :: real) \<le> (\<Sum>i<2 * 2 + 1. (- 1) ^ i * (1 / real (i * 2 + 1) * (1 / 239) ^ (i * 2 + 1)))"
    by (rule arctan_bounds) simp_all
  have "pi = 16 * arctan (1 / 5) - 4 * arctan (1 / 239)"
    using machin by simp
  with a b have "16 * (\<Sum>i<2 * 7. (- 1) ^ i * (1 / real (i * 2 + 1) * (1 / 5) ^ (i * 2 + 1)))
     - 4 * (\<Sum>i<2 * 2 + 1. (- 1) ^ i * (1 / real (i * 2 + 1) * (1 / 239) ^ (i * 2 + 1))) \<le> pi"
    by linarith
  moreover have "Math_PI + 12 / 10 ^ 17 \<le> 16 * (\<Sum>i<2 * 7. (- 1) ^ i * (1 / real (i * 2 + 1) * (1 / 5) ^ (i * 2 + 1)))
     - 4 * (\<Sum>i<2 * 2 + 1. (- 1) ^ i * (1 / real (i * 2 + 1) * (1 / 239) ^ (i * 2 + 1)))"
    by (simp add: Math_PI_def eval_nat_numeral)
  ultimately show ?thesis by linarith
qed

lemma pi_upper: "pi \<le> Math_PI + 13 / 10 ^ 17"
proof -
  have a: "arctan (1 / 5 :: real) \<le> (\<Sum>i<2 * 7 + 1. (- 1) ^ i * (1 / real (i * 2 + 1) * (1 / 5) ^ (i * 2 + 1)))"
    by (rule arctan_bounds) simp_all
  have b: "(\<Sum>i<2 * 2. (- 1) ^ i * (1 / real (i * 2 + 1) * (1 / 239) ^ (i * 2 + 1))) \<le> arctan (1 / 239 :: real)"
    by (rule arctan_bounds) simp_all
  have "pi = 16 * arctan (1 / 5) - 4 * arctan (1 / 239)"
    using machin by simp
  with a b have "pi \<le> 16 * (\<Sum>i<2 * 7 + 1. (- 1) ^ i * (1 / real (i * 2 + 1) * (1 / 5) ^ (i * 2 + 1)))
     - 4 * (\<Sum>i<2 * 2. (- 1) ^ i * (1 / real (i * 2 + 1) * (1 / 239) ^ (i * 2 + 1)))"
    by linarith
  moreover have "16 * (\<Sum>i<2 * 7 + 1. (- 1) ^ i * (1 / real (i * 2 + 1) * (1 / 5) ^ (i * 2 + 1)))
     - 4 * (\<Sum>i<2 * 2. (- 1) ^ i * (1 / real (i * 2 + 1) * (1 / 239) ^ (i * 2 + 1))) \<le> Math_PI + 13 / 10 ^ 17"
    by (simp add: Math_PI_def eval_nat_numeral)
  ultimately show ?thesis by linarith
qed

lemma Math_sin_0 [simp]: "Math_sin 0 = 0"
  by (simp add: Math_sin_def)

lemma Math_cos_0 [simp]: "Math_cos 0 = 1"
  by (simp add: Math_cos_def)

lemma fl_PI_180: "fl (Math_PI / 180) = 5030569068109113 / 2 ^ 58"
proof -
  have "fl (Math_PI / 180)
      = of_int (round_even ((Math_PI / 180) / 2 powi (- 6 - 52))) * 2 powi (- 6 - 52)"
    by (rule fl_binade) (simp_all add: Math_PI_def power_int_minus)
  also have "\<dots> = 5030569068109113 / 2 ^ 58"
    by (simp add: Math_PI_def round_even_def Let_def power_int_minus)
  finally show ?thesis .
qed

lemma phi_equator: "fl (90 * fl (Math_PI / 180)) = Math_PI / 2"
proof -
  have "fl (90 * fl (Math_PI / 180))
      = of_int (round_even ((90 * fl (Math_PI / 180)) / 2 powi (0 - 52))) * 2 powi (0 - 52)"
    by (rule fl_binade) (simp_all add: fl_PI_180)
  also have "\<dots> = Math_PI / 2"
    unfolding fl_PI_180 by (simp add: Math_PI_def round_even_def Let_def power_int_minus)
  finally show ?thesis .
qed

lemma theta_zero: "fl (180 * fl (Math_PI / 180)) = Math_PI"
proof -
  have "fl (180 * fl (Math_PI / 180))
      = of_int (round_even ((180 * fl (Math_PI / 180)) / 2 powi (1 - 52))) * 2 powi (1 - 52)"
    by (rule fl_binade) (simp_all add: fl_PI_180)
  also have "\<dots> = Math_PI"
    unfolding fl_PI_180 by (simp add: Math_PI_def round_even_def Let_def power_int_minus)
  finally show ?thesis .
qed

lemma cos_near_one:
  fixes d :: real
  assumes "\<bar>d\<bar> \<le> 1 / 2 ^ 27"
  shows "\<bar>cos d - 1\<bar> \<le> 1 / 2 ^ 55"
proof -
  have "cos d = 1 - 2 * sin (d / 2) ^ 2" using cos_double_sin [of "d / 2"] by simp
  moreover have "sin (d / 2) ^ 2 \<le> (d / 2) ^ 2"
    using abs_sin_x_le_abs_x [of "d / 2"] by (metis abs_le_square_iff power2_abs)
  moreover have "(d / 2) ^ 2 \<le> (1 / 2 ^ 28) ^ 2"
    using assms by (intro power2_le_iff_abs_le [THEN iffD2]) simp_all
  moreover have "0 \<le> sin (d / 2) ^ 2" by simp
  ultimately show ?thesis by (simp add: power_divide) 
qed

lemma sin_small:
  fixes d :: real
  assumes "0 \<le> d"
  shows "d - d ^ 3 / 6 \<le> sin d" and "sin d \<le> d"
proof -
  have "(\<Sum>m<3. sin_coeff m * d ^ m) = d"
    by (simp add: sin_coeff_def eval_nat_numeral)
  with Maclaurin_sin_bound [of d 3] have "\<bar>sin d - d\<bar> \<le> inverse (fact 3) * \<bar>d\<bar> ^ 3" by simp
  moreover have "inverse (fact 3) * \<bar>d\<bar> ^ 3 = d ^ 3 / 6"
    using assms by (simp add: eval_nat_numeral)
  ultimately show "d - d ^ 3 / 6 \<le> sin d" by linarith
  show "sin d \<le> d" by (rule sin_x_le_x [OF assms])
qed

lemma Math_sin_half_PI: "Math_sin (Math_PI / 2) = 1"
proof -
  define d where "d = pi / 2 - Math_PI / 2"
  have "sin (Math_PI / 2) = cos d" by (simp add: d_def cos_diff)
  moreover have "\<bar>d\<bar> \<le> 1 / 2 ^ 27" using pi_lower pi_upper by (simp add: d_def abs_le_iff)
  then have "\<bar>cos d - 1\<bar> \<le> 1 / 2 ^ 55" by (rule cos_near_one)
  then have "fl (cos d) = 1" by (rule fl_near_one)
  ultimately show ?thesis by (simp only: Math_sin_def)
qed

lemma Math_cos_PI: "Math_cos Math_PI = - 1"
proof -
  define d where "d = pi - Math_PI"
  have "cos Math_PI = - cos d" by (simp add: d_def cos_diff)
  moreover have "\<bar>d\<bar> \<le> 1 / 2 ^ 27" using pi_lower pi_upper by (simp add: d_def abs_le_iff)
  then have "\<bar>cos d - 1\<bar> \<le> 1 / 2 ^ 55" by (rule cos_near_one)
  then have "fl (cos d) = 1" by (rule fl_near_one)
  ultimately show ?thesis by (simp only: Math_cos_def fl_minus)
qed

lemma Math_cos_half_PI:
  "1 / 2 ^ 54 \<le> Math_cos (Math_PI / 2)" "Math_cos (Math_PI / 2) \<le> 1 / 2 ^ 53"
proof -
  define d where "d = pi / 2 - Math_PI / 2"
  have c: "cos (Math_PI / 2) = sin d" by (simp add: d_def sin_diff)
  have d: "6 / 10 ^ 17 \<le> d" "d \<le> 65 / 10 ^ 18" using pi_lower pi_upper by (simp_all add: d_def)
  then have d0: "0 \<le> d" by simp
  have "d ^ 3 \<le> (65 / 10 ^ 18) ^ 3" by (rule power_mono [OF d(2) d0])
  moreover have "((65::real) / 10 ^ 18) ^ 3 \<le> 1 / 10 ^ 45" by (simp add: power_divide)
  ultimately have cube: "d ^ 3 \<le> 1 / 10 ^ 45" by (rule order_trans)
  have "d ^ 3 / 6 \<le> (1 / 10 ^ 45) / 6" using cube by (rule divide_right_mono) simp
  with d(1) have "6 / 10 ^ 17 - (1 / 10 ^ 45) / 6 \<le> d - d ^ 3 / 6" by (rule diff_mono)
  moreover have "(1::real) / 2 ^ 54 \<le> 6 / 10 ^ 17 - (1 / 10 ^ 45) / 6" by simp
  ultimately have lo: "1 / 2 ^ 54 \<le> sin d" using sin_small(1) [OF d0] by (meson order_trans)
  have "(65::real) / 10 ^ 18 < 1 / 2 ^ 53" by simp
  then have hi: "sin d < 1 / 2 ^ 53" using sin_small(2) [OF d0] d(2) by (meson order_trans order_le_less_trans)
  have "2 powi (- 54) \<le> sin d" "sin d < 2 powi (- 54 + 1)"
    using lo hi by (simp_all add: power_int_minus_divide)
  from fl_within_binade [OF this]
  show "1 / 2 ^ 54 \<le> Math_cos (Math_PI / 2)" "Math_cos (Math_PI / 2) \<le> 1 / 2 ^ 53"
    by (simp_all add: Math_cos_def c power_int_minus_divide)
qed

lemma Math_sin_PI:
  "1 / 2 ^ 53 \<le> Math_sin Math_PI" "Math_sin Math_PI \<le> 1 / 2 ^ 52"
proof -
  define d where "d = pi - Math_PI"
  have c: "sin Math_PI = sin d" by (simp add: d_def sin_diff)
  have d: "12 / 10 ^ 17 \<le> d" "d \<le> 13 / 10 ^ 17" using pi_lower pi_upper by (simp_all add: d_def)
  then have d0: "0 \<le> d" by simp
  have "d ^ 3 \<le> (13 / 10 ^ 17) ^ 3" by (rule power_mono [OF d(2) d0])
  moreover have "((13::real) / 10 ^ 17) ^ 3 \<le> 1 / 10 ^ 45" by (simp add: power_divide)
  ultimately have cube: "d ^ 3 \<le> 1 / 10 ^ 45" by (rule order_trans)
  have "d ^ 3 / 6 \<le> (1 / 10 ^ 45) / 6" using cube by (rule divide_right_mono) simp
  with d(1) have "12 / 10 ^ 17 - (1 / 10 ^ 45) / 6 \<le> d - d ^ 3 / 6" by (rule diff_mono)
  moreover have "(1::real) / 2 ^ 53 \<le> 12 / 10 ^ 17 - (1 / 10 ^ 45) / 6" by simp
  ultimately have lo: "1 / 2 ^ 53 \<le> sin d" using sin_small(1) [OF d0] by (meson order_trans)
  have "(13::real) / 10 ^ 17 < 1 / 2 ^ 52" by simp
  then have hi: "sin d < 1 / 2 ^ 52" using sin_small(2) [OF d0] d(2) by (meson order_trans order_le_less_trans)
  have "2 powi (- 53) \<le> sin d" "sin d < 2 powi (- 53 + 1)"
    using lo hi by (simp_all add: power_int_minus_divide)
  from fl_within_binade [OF this]
  show "1 / 2 ^ 53 \<le> Math_sin Math_PI" "Math_sin Math_PI \<le> 1 / 2 ^ 52"
    by (simp_all add: Math_sin_def c power_int_minus_divide)
qed

section \<open>Projection: the two reference points\<close>

lemma Math_idem [simp]: "fl (Math_sin x) = Math_sin x" "fl (Math_cos x) = Math_cos x"
  by (simp_all add: Math_sin_def Math_cos_def)

lemma latLng_north_pole:
  assumes "is_double R"
  shows "latLngToVector3 90 lo R = Vector3 0 R 0"
  using assms by (simp add: latLngToVector3_def is_double_def)

lemma latLng_equator:
  assumes "is_double R"
  shows "latLngToVector3 0 0 R
       = Vector3 R (fl (R * Math_cos (Math_PI / 2))) (fl (R * Math_sin Math_PI))"
  using assms
  by (simp add: latLngToVector3_def is_double_def phi_equator theta_zero Math_sin_half_PI
      Math_cos_PI fl_minus)

lemma is_double_1: "is_double 1"
  by (simp add: is_double_def)

lemma equator_small:
  "\<bar>fl (R * Math_cos (Math_PI / 2))\<bar> \<le> \<bar>R\<bar> / 2 ^ 52 + 1 / 2 ^ 1075"
  "\<bar>fl (R * Math_sin Math_PI)\<bar> \<le> \<bar>R\<bar> / 2 ^ 51 + 1 / 2 ^ 1075"
proof -
  have small: "\<bar>fl (R * c)\<bar> \<le> \<bar>R\<bar> * (2 * b) + 1 / 2 ^ 1075" if "0 \<le> c" "c \<le> b" for c b
  proof -
    have "\<bar>R * c\<bar> = \<bar>R\<bar> * c" using that(1) by (simp add: abs_mult)
    also have "\<dots> \<le> \<bar>R\<bar> * b" using that(2) by (intro mult_left_mono) simp_all
    finally have t: "\<bar>R * c\<bar> \<le> \<bar>R\<bar> * b" .
    have "\<bar>R * c\<bar> / 2 ^ 53 \<le> \<bar>R * c\<bar>" by (simp add: field_simps)
    with fl_error [of "R * c"] t show ?thesis by linarith
  qed
  have c0: "(0::real) \<le> 1 / 2 ^ 54" "(0::real) \<le> 1 / 2 ^ 53" by simp_all
  have "\<bar>fl (R * Math_cos (Math_PI / 2))\<bar> \<le> \<bar>R\<bar> * (2 * (1 / 2 ^ 53)) + 1 / 2 ^ 1075"
    using Math_cos_half_PI c0 by (intro small) linarith+
  then show "\<bar>fl (R * Math_cos (Math_PI / 2))\<bar> \<le> \<bar>R\<bar> / 2 ^ 52 + 1 / 2 ^ 1075" by simp
  have "\<bar>fl (R * Math_sin Math_PI)\<bar> \<le> \<bar>R\<bar> * (2 * (1 / 2 ^ 52)) + 1 / 2 ^ 1075"
    using Math_sin_PI c0 by (intro small) linarith+
  then show "\<bar>fl (R * Math_sin Math_PI)\<bar> \<le> \<bar>R\<bar> / 2 ^ 51 + 1 / 2 ^ 1075" by simp
qed

text \<open>
  C2, as stated, fails at \<open>lat = 0, lng = 0\<close>: already for the radius \<open>1\<close> the projection
  returns a point whose second and third coordinates are positive, because
  \<open>Math.cos(Math.PI / 2)\<close> and \<open>Math.sin(Math.PI)\<close> are not zero.
\<close>

theorem C2_counterexample:
  "latLngToVector3 0 0 1 \<noteq> Vector3 1 0 0 \<and>
   0 < vy (latLngToVector3 0 0 1) \<and> 0 < vz (latLngToVector3 0 0 1)"
proof -
  have "latLngToVector3 0 0 1 = Vector3 1 (Math_cos (Math_PI / 2)) (Math_sin Math_PI)"
    using latLng_equator [OF is_double_1] by simp
  moreover have "(0::real) < 1 / 2 ^ 54" "(0::real) < 1 / 2 ^ 53" by simp_all
  then have "0 < Math_cos (Math_PI / 2)" "0 < Math_sin Math_PI"
    using Math_cos_half_PI(1) Math_sin_PI(1) by linarith+
  ultimately show ?thesis by simp
qed

text \<open>
  C2, amended.  For every finite double \<open>R\<close>, the projection sends the north pole
  \<open>lat = 90\<close> to exactly \<open>(0, R, 0)\<close>, whatever the longitude.  It sends \<open>lat = 0, lng = 0\<close>
  to a point whose first coordinate is exactly \<open>R\<close>, and whose second and third coordinates
  are the rounded products of \<open>R\<close> with \<open>Math.cos(Math.PI / 2)\<close>, between \<open>2 powi - 54\<close> and
  \<open>2 powi - 53\<close>, and with \<open>Math.sin(Math.PI)\<close>, between \<open>2 powi - 53\<close> and \<open>2 powi - 52\<close>:
  small against \<open>R\<close>, and not zero.
\<close>

theorem C2_projection_reference_points:
  assumes "is_double R"
  shows "latLngToVector3 90 lo R = Vector3 0 R 0 \<and>
         latLngToVector3 0 0 R
           = Vector3 R (fl (R * Math_cos (Math_PI / 2))) (fl (R * Math_sin Math_PI)) \<and>
         1 / 2 ^ 54 \<le> Math_cos (Math_PI / 2) \<and> Math_cos (Math_PI / 2) \<le> 1 / 2 ^ 53 \<and>
         1 / 2 ^ 53 \<le> Math_sin Math_PI \<and> Math_sin Math_PI \<le> 1 / 2 ^ 52 \<and>
         \<bar>fl (R * Math_cos (Math_PI / 2))\<bar> \<le> \<bar>R\<bar> / 2 ^ 52 + 1 / 2 ^ 1075 \<and>
         \<bar>fl (R * Math_sin Math_PI)\<bar> \<le> \<bar>R\<bar> / 2 ^ 51 + 1 / 2 ^ 1075"
  using latLng_north_pole [OF assms, of lo] latLng_equator [OF assms]
    Math_cos_half_PI Math_sin_PI equator_small [of R]
  by simp

theorem C2_projection_reference_points_witness:
  "is_double 2 \<and> latLngToVector3 90 37 2 = Vector3 0 2 0 \<and> vx (latLngToVector3 0 0 2) = 2"
  using C2_projection_reference_points [of 2 37] by (simp add: is_double_def)


section \<open>Marker layer: rebuild and hover\<close>

lemma create_marker_closed:
  assumes "g < next_id st"
  shows "create_marker g loc st =
    st\<lparr>next_id := Suc (Suc (Suc (next_id st))),
       heap := (heap st)
         (Suc (next_id st) := sphere_object (next_id st),
          Suc (Suc (next_id st)) := light_object (next_id st),
          next_id st := marker_object g (next_id st) loc,
          g := (heap st g)\<lparr>children := children (heap st g) @ [next_id st]\<rparr>),
       markers := markers st @ [next_id st]\<rparr>"
  using assms
  by (simp add: create_marker_def alloc_def add_def new_object_def Let_def
      marker_object_def sphere_object_def light_object_def)

lemma create_marker_next_id:
  "g < next_id st \<Longrightarrow> next_id (create_marker g loc st) = next_id st + 3"
  by (simp add: create_marker_closed)

lemma create_marker_markers:
  "g < next_id st \<Longrightarrow> markers (create_marker g loc st) = markers st @ [next_id st]"
  by (simp add: create_marker_closed)

lemma create_marker_old:
  "g < next_id st \<Longrightarrow> i < next_id st \<Longrightarrow> i \<noteq> g \<Longrightarrow> heap (create_marker g loc st) i = heap st i"
  by (simp add: create_marker_closed)

lemma create_marker_group:
  "g < next_id st \<Longrightarrow>
   heap (create_marker g loc st) g = (heap st g)\<lparr>children := children (heap st g) @ [next_id st]\<rparr>"
  by (simp add: create_marker_closed)

lemma create_marker_new:
  assumes "g < next_id st"
  shows "heap (create_marker g loc st) (next_id st) = marker_object g (next_id st) loc"
    and "heap (create_marker g loc st) (Suc (next_id st)) = sphere_object (next_id st)"
    and "heap (create_marker g loc st) (Suc (Suc (next_id st))) = light_object (next_id st)"
  using assms by (simp_all add: create_marker_closed)

lemma create_marker_frame:
  "g < next_id st \<Longrightarrow>
   (create_marker g loc st)\<lparr>heap := heap st, next_id := next_id st, markers := markers st\<rparr> = st"
  by (simp add: create_marker_closed)

lemma new_ids_Suc: "new_ids n (Suc N) = n # new_ids (n + 3) N"
  by (simp add: new_ids_def upt_rec [of 0] map_Suc_upt [symmetric] del: upt_Suc)

lemma fold_create_next_id:
  "g < next_id st \<Longrightarrow> next_id (fold (create_marker g) locs st) = next_id st + 3 * length locs"
  by (induction locs arbitrary: st) (simp_all add: create_marker_next_id)

lemma fold_create_markers:
  "g < next_id st \<Longrightarrow>
   markers (fold (create_marker g) locs st) = markers st @ new_ids (next_id st) (length locs)"
  by (induction locs arbitrary: st)
     (simp_all add: create_marker_next_id create_marker_markers new_ids_Suc, simp add: new_ids_def)

lemma fold_create_old:
  "g < next_id st \<Longrightarrow> i < next_id st \<Longrightarrow> i \<noteq> g \<Longrightarrow>
   heap (fold (create_marker g) locs st) i = heap st i"
  by (induction locs arbitrary: st) (simp_all add: create_marker_next_id create_marker_old)

lemma fold_create_group:
  "g < next_id st \<Longrightarrow>
   heap (fold (create_marker g) locs st) g =
   (heap st g)\<lparr>children := children (heap st g) @ new_ids (next_id st) (length locs)\<rparr>"
  by (induction locs arbitrary: st)
     (simp_all add: create_marker_next_id create_marker_group new_ids_Suc, simp add: new_ids_def)

lemma fold_create_frame:
  "g < next_id st \<Longrightarrow>
   (fold (create_marker g) locs st)\<lparr>heap := heap st, next_id := next_id st, markers := markers st\<rparr> = st"
proof (induction locs arbitrary: st)
  case Nil then show ?case by simp
next
  case (Cons a locs)
  let ?st1 = "create_marker g a st"
  let ?f = "\<lambda>s::state. s\<lparr>heap := heap st, next_id := next_id st, markers := markers st\<rparr>"
  have "g < next_id ?st1" using Cons.prems by (simp add: create_marker_next_id)
  from Cons.IH[OF this]
  have "?f ((fold (create_marker g) locs ?st1)\<lparr>heap := heap ?st1, next_id := next_id ?st1,
          markers := markers ?st1\<rparr>) = ?f ?st1"
    by (rule arg_cong)
  then show ?case using create_marker_frame [OF Cons.prems, of a] by simp
qed

lemma new_ids_nth: "k < N \<Longrightarrow> new_ids n N ! k = n + 3 * k"
  by (simp add: new_ids_def)

lemma length_new_ids: "length (new_ids n N) = N"
  by (simp add: new_ids_def)

lemma set_new_ids: "set (new_ids n N) = (\<lambda>k. n + 3 * k) ` {..<N}"
  by (auto simp: new_ids_def)

lemma distinct_new_ids: "distinct (new_ids n N)"
  by (simp add: new_ids_def distinct_map inj_on_def)

lemma fold_create_new:
  "g < next_id st \<Longrightarrow> k < length locs \<Longrightarrow>
   heap (fold (create_marker g) locs st) (next_id st + 3 * k)
     = marker_object g (next_id st + 3 * k) (locs ! k) \<and>
   heap (fold (create_marker g) locs st) (Suc (next_id st + 3 * k))
     = sphere_object (next_id st + 3 * k) \<and>
   heap (fold (create_marker g) locs st) (Suc (Suc (next_id st + 3 * k)))
     = light_object (next_id st + 3 * k)"
proof (induction locs arbitrary: st k)
  case Nil then show ?case by simp
next
  case (Cons a locs)
  let ?st1 = "create_marker g a st"
  have g1: "g < next_id ?st1" and n1: "next_id ?st1 = next_id st + 3"
    using Cons.prems by (simp_all add: create_marker_next_id)
  show ?case
  proof (cases k)
    case 0
    then show ?thesis
      using Cons.prems g1 n1 by (simp add: fold_create_old create_marker_new)
  next
    case (Suc j)
    then have "j < length locs" using Cons.prems by simp
    from Cons.IH [OF g1 this] show ?thesis
      using Suc n1 by (simp add: add.commute add.left_commute)
  qed
qed

lemma those_map_Some: "those (map (\<lambda>x. Some (f x)) xs) = Some (map f xs)"
  by (induction xs) simp_all

lemma traverse_leaf: "children (h c) = [] \<Longrightarrow> traverse (Suc n) h c = Some [c]"
  by simp

lemma concat_singletons: "concat (map (\<lambda>c. [c]) xs) = xs"
  by (induction xs) simp_all

lemma traverse_flat:
  assumes "flat h m"
  shows "traverse (Suc (Suc n)) h m = Some (m # children (h m))"
proof -
  have eq: "map (traverse (Suc n) h) (children (h m)) = map (\<lambda>c. Some [c]) (children (h m))"
    using assms by (intro map_cong refl) (simp add: flat_def)
  have "traverse (Suc (Suc n)) h m =
      map_option (\<lambda>xss. m # concat xss) (those (map (traverse (Suc n) h) (children (h m))))"
    by (rule traverse.simps(2))
  also have "\<dots> = Some (m # children (h m))"
    by (simp only: eq those_map_Some option.map concat_singletons)
  finally show ?thesis .
qed

lemma remove_fields [simp]:
  "kind (remove p c h x) = kind (h x)"
  "position (remove p c h x) = position (h x)"
  "color (remove p c h x) = color (h x)"
  "geometry_disposed (remove p c h x) = geometry_disposed (h x)"
  "material_disposed (remove p c h x) = material_disposed (h x)"
  by (simp_all add: remove_def Let_def)

lemma children_remove:
  "children (remove p c h x) = (if x = p then remove1 c (children (h p)) else children (h x))"
  by (simp add: remove_def Let_def remove1_idem)

lemma dispose_mesh_fields [simp]:
  "kind (dispose_mesh i h x) = kind (h x)"
  "position (dispose_mesh i h x) = position (h x)"
  "color (dispose_mesh i h x) = color (h x)"
  "children (dispose_mesh i h x) = children (h x)"
  "parent (dispose_mesh i h x) = parent (h x)"
  by (simp_all add: dispose_mesh_def)

lemma dispose_mesh_flags:
  "geometry_disposed (dispose_mesh i h x) = (geometry_disposed (h x) \<or> x = i \<and> kind (h i) = Mesh)"
  "material_disposed (dispose_mesh i h x) = (material_disposed (h x) \<or> x = i \<and> kind (h i) = Mesh)"
  by (auto simp: dispose_mesh_def)

lemma fold_dispose_fields [simp]:
  "kind (fold dispose_mesh ids h x) = kind (h x)"
  "position (fold dispose_mesh ids h x) = position (h x)"
  "color (fold dispose_mesh ids h x) = color (h x)"
  "children (fold dispose_mesh ids h x) = children (h x)"
  "parent (fold dispose_mesh ids h x) = parent (h x)"
  by (induction ids arbitrary: h) simp_all

lemma fold_dispose_flags:
  "geometry_disposed (fold dispose_mesh ids h x)
     = (geometry_disposed (h x) \<or> x \<in> set ids \<and> kind (h x) = Mesh)"
  "material_disposed (fold dispose_mesh ids h x)
     = (material_disposed (h x) \<or> x \<in> set ids \<and> kind (h x) = Mesh)"
  by (induction ids arbitrary: h) (auto simp: dispose_mesh_flags)

lemma remove_ref_Reactive [simp]: "remove_ref p (Reactive c) h = h"
  by (simp add: remove_ref_def)

lemma clear_step_fields [simp]:
  "kind (clear_step g m h x) = kind (h x)"
  "position (clear_step g m h x) = position (h x)"
  "color (clear_step g m h x) = color (h x)"
  "children (clear_step g m h x) = children (h x)"
  "parent (clear_step g m h x) = parent (h x)"
  by (simp_all add: clear_step_def Let_def del: fold_simps)

lemma clear_step_flags:
  "geometry_disposed (clear_step g m h x)
     = (geometry_disposed (h x) \<or> x \<in> set (m # children (h m)) \<and> kind (h x) = Mesh)"
  "material_disposed (clear_step g m h x)
     = (material_disposed (h x) \<or> x \<in> set (m # children (h m)) \<and> kind (h x) = Mesh)"
  by (auto simp: clear_step_def Let_def fold_dispose_flags dispose_mesh_flags)

lemma fold_clear_step_fields [simp]:
  "kind (fold (clear_step g) ms h x) = kind (h x)"
  "position (fold (clear_step g) ms h x) = position (h x)"
  "color (fold (clear_step g) ms h x) = color (h x)"
  "children (fold (clear_step g) ms h x) = children (h x)"
  "parent (fold (clear_step g) ms h x) = parent (h x)"
  by (induction ms arbitrary: h) simp_all

lemma fold_clear_step_mono:
  "geometry_disposed (h x) \<Longrightarrow> geometry_disposed (fold (clear_step g) ms h x)"
  "material_disposed (h x) \<Longrightarrow> material_disposed (fold (clear_step g) ms h x)"
  by (induction ms arbitrary: h) (simp_all add: clear_step_flags)

lemma flat_clear_step: "flat h x \<Longrightarrow> flat (clear_step g m h) x"
  by (simp add: flat_def)

lemma clear_markers_flat:
  assumes "\<forall>m\<in>set ms. flat (heap st) m" and "2 \<le> next_id st"
  shows "clear_markers g ms st = Inr (st\<lparr>heap := fold (clear_step g) ms (heap st)\<rparr>)"
  using assms
proof (induction ms arbitrary: st)
  case Nil then show ?case by simp
next
  case (Cons m ms)
  obtain n where n: "next_id st = Suc (Suc n)"
    using Cons.prems(2) by (metis Suc_le_D numeral_2_eq_2 Suc_le_mono)
  have fl: "flat (heap st) m"
    using Cons.prems(1) by simp
  let ?st1 = "st\<lparr>heap := clear_step g m (heap st)\<rparr>"
  have "\<forall>m\<in>set ms. flat (heap ?st1) m" "2 \<le> next_id ?st1"
    using Cons.prems by (simp_all add: flat_clear_step)
  from Cons.IH [OF this] show ?case
    by (simp add: n traverse_flat [OF fl] clear_step_def Let_def del: traverse.simps fold_simps)
qed

lemma marker_shaped_flat: "marker_shaped h m \<Longrightarrow> flat h m"
  by (auto simp: marker_shaped_def flat_def split: list.splits)

lemma find_group_props:
  assumes "find_group st sc = Some g"
  shows "g \<in> set (children (heap st sc))" and "kind (heap st g) = Group"
  using assms by (auto simp: find_group_def find_Some_iff)

lemma group_allocated:
  assumes "store_ok st" "scene st = Some sc" "find_group st sc = Some g"
  shows "g < next_id st" and "sc < next_id st" and "sc \<noteq> g" and "2 \<le> next_id st"
proof -
  have sc: "sc < next_id st" and k: "kind (heap st sc) = Scene"
    using assms(1,2) by (simp_all add: store_ok_def)
  show "sc < next_id st" by (rule sc)
  show g: "g < next_id st"
    using assms(1) sc find_group_props(1) [OF assms(3)] by (auto simp: store_ok_def)
  show ne: "sc \<noteq> g"
    using k find_group_props(2) [OF assms(3)] by auto
  show "2 \<le> next_id st" using sc g ne by linarith
qed

lemma createMarkers_result:
  assumes "store_ok st" "markers_ok st" "scene st = Some sc" "find_group st sc = Some g"
  shows "createMarkers locs st = Inr (rebuilt g locs st)"
proof -
  have "\<forall>m\<in>set (markers st). flat (heap st) m"
    using assms(2) by (simp add: markers_ok_def marker_shaped_flat)
  from clear_markers_flat [OF this group_allocated(4) [OF assms(1,3,4)]]
  show ?thesis
    by (simp add: createMarkers_def assms(3,4) cleared_def rebuilt_def)
qed

lemma cleared_simps [simp]:
  "next_id (cleared g st) = next_id st"
  "markers (cleared g st) = []"
  "scene (cleared g st) = scene st"
  "kind (heap (cleared g st) x) = kind (heap st x)"
  "position (heap (cleared g st) x) = position (heap st x)"
  "color (heap (cleared g st) x) = color (heap st x)"
  "children (heap (cleared g st) x) = children (heap st x)"
  "parent (heap (cleared g st) x) = parent (heap st x)"
  by (simp_all add: cleared_def)

text \<open>What a rebuild leaves behind, address by address.\<close>

lemma rebuilt_markers:
  fixes locs :: "location list" and g :: nat and st :: state
  assumes "g < next_id st"
  defines "st' \<equiv> rebuilt g locs st"
  shows "markers st' = new_ids (next_id st) (length locs)"
    and "next_id st' = next_id st + 3 * length locs"
    and "scene st' = scene st"
    and "children (heap st' g) = children (heap st g) @ new_ids (next_id st) (length locs)"
    and "kind (heap st' g) = kind (heap st g)"
    and "\<And>i. i < next_id st \<Longrightarrow> i \<noteq> g \<Longrightarrow> heap st' i = heap (cleared g st) i"
    and "\<And>k. k < length locs \<Longrightarrow>
           heap st' (next_id st + 3 * k) = marker_object g (next_id st + 3 * k) (locs ! k)"
    and "\<And>k. k < length locs \<Longrightarrow>
           heap st' (Suc (next_id st + 3 * k)) = sphere_object (next_id st + 3 * k)"
    and "\<And>k. k < length locs \<Longrightarrow>
           heap st' (Suc (Suc (next_id st + 3 * k))) = light_object (next_id st + 3 * k)"
proof -
  have g: "g < next_id (cleared g st)" using assms(1) by simp
  show "markers st' = new_ids (next_id st) (length locs)"
    unfolding st'_def rebuilt_def using fold_create_markers [OF g, of locs] by simp
  show "next_id st' = next_id st + 3 * length locs"
    unfolding st'_def rebuilt_def using fold_create_next_id [OF g, of locs] by simp
  show "scene st' = scene st"
    unfolding st'_def rebuilt_def using arg_cong [OF fold_create_frame [OF g, of locs], of scene] by simp
  show "children (heap st' g) = children (heap st g) @ new_ids (next_id st) (length locs)"
    unfolding st'_def rebuilt_def using fold_create_group [OF g, of locs] by simp
  show "kind (heap st' g) = kind (heap st g)"
    unfolding st'_def rebuilt_def using fold_create_group [OF g, of locs] by simp
  show "\<And>i. i < next_id st \<Longrightarrow> i \<noteq> g \<Longrightarrow> heap st' i = heap (cleared g st) i"
    unfolding st'_def rebuilt_def using fold_create_old [OF g, of _ locs] by simp
  show "\<And>k. k < length locs \<Longrightarrow>
           heap st' (next_id st + 3 * k) = marker_object g (next_id st + 3 * k) (locs ! k)"
    unfolding st'_def rebuilt_def using fold_create_new [OF g, of _ locs] by simp
  show "\<And>k. k < length locs \<Longrightarrow>
           heap st' (Suc (next_id st + 3 * k)) = sphere_object (next_id st + 3 * k)"
    unfolding st'_def rebuilt_def using fold_create_new [OF g, of _ locs] by simp
  show "\<And>k. k < length locs \<Longrightarrow>
           heap st' (Suc (Suc (next_id st + 3 * k))) = light_object (next_id st + 3 * k)"
    unfolding st'_def rebuilt_def using fold_create_new [OF g, of _ locs] by simp
qed

lemma in_new_ids: "m \<in> set (new_ids n N) \<longleftrightarrow> (\<exists>k<N. m = n + 3 * k)"
  by (auto simp: set_new_ids)

lemma rebuilt_marker_at:
  assumes "g < next_id st" "m \<in> set (markers (rebuilt g locs st))"
  shows "\<exists>k<length locs. m = next_id st + 3 * k \<and>
           heap (rebuilt g locs st) m = marker_object g m (locs ! k) \<and>
           heap (rebuilt g locs st) (Suc m) = sphere_object m \<and>
           heap (rebuilt g locs st) (Suc (Suc m)) = light_object m"
  using assms(2) rebuilt_markers(7,8,9) [OF assms(1), of _ locs]
  by (auto simp: rebuilt_markers(1) [OF assms(1)] in_new_ids)

lemma rebuilt_positions:
  assumes "g < next_id st"
  shows "map (\<lambda>m. position (heap (rebuilt g locs st) m)) (markers (rebuilt g locs st))
       = map (\<lambda>l. latLngToVector3 (lat l) (lng l) (fl 0.92)) locs"
  by (rule nth_equalityI)
     (simp_all add: rebuilt_markers(1,7) [OF assms] length_new_ids new_ids_nth marker_object_def)

lemma rebuilt_markers_ok:
  assumes "g < next_id st"
  shows "markers_ok (rebuilt g locs st)"
  unfolding markers_ok_def
proof
  fix m assume "m \<in> set (markers (rebuilt g locs st))"
  from rebuilt_marker_at [OF assms this] show "marker_shaped (heap (rebuilt g locs st)) m"
    by (auto simp: marker_shaped_def marker_object_def sphere_object_def light_object_def)
qed

text \<open>
  C4.  With the scene handle and the Globe Group present, a marker rebuild over a list of
  \<open>N\<close> locations returns (it raises nothing), and leaves a marker collection of exactly
  \<open>N\<close> distinct grouping nodes, each of them a child of the Globe Group.  Nothing is
  assumed about the names: duplicates are allowed.
\<close>

theorem C4_marker_count:
  assumes "store_ok st" and "markers_ok st"
    and "scene st = Some sc" and "find_group st sc = Some g"
  shows "\<exists>st'. createMarkers locs st = Inr st' \<and>
           length (markers st') = length locs \<and> distinct (markers st') \<and>
           (\<forall>m\<in>set (markers st').
              m \<in> set (children (heap st' g)) \<and> parent (heap st' m) = Some g \<and>
              kind (heap st' m) = Group)"
proof -
  have g: "g < next_id st" by (rule group_allocated(1) [OF assms(1,3,4)])
  let ?st' = "rebuilt g locs st"
  have "createMarkers locs st = Inr ?st'" by (rule createMarkers_result [OF assms])
  moreover have "length (markers ?st') = length locs" "distinct (markers ?st')"
    by (simp_all add: rebuilt_markers(1) [OF g] length_new_ids distinct_new_ids)
  moreover have "\<forall>m\<in>set (markers ?st').
      m \<in> set (children (heap ?st' g)) \<and> parent (heap ?st' m) = Some g \<and> kind (heap ?st' m) = Group"
  proof
    fix m assume m: "m \<in> set (markers ?st')"
    then have "m \<in> set (children (heap ?st' g))"
      by (simp add: rebuilt_markers(1,4) [OF g])
    with rebuilt_marker_at [OF g m]
    show "m \<in> set (children (heap ?st' g)) \<and> parent (heap ?st' m) = Some g \<and> kind (heap ?st' m) = Group"
      by (auto simp: marker_object_def)
  qed
  ultimately show ?thesis by blast
qed

lemma scene0_ok:
  "store_ok scene0" "markers_ok scene0" "scene scene0 = Some 0" "find_group scene0 0 = Some 1"
  by (simp_all add: store_ok_def markers_ok_def scene0_def find_group_def new_object_def
      less_Suc_eq eval_nat_numeral)

theorem C4_marker_count_witness:
  "\<exists>st'. createMarkers [\<lparr>name = ''A'', lat = 0, lng = 0\<rparr>, \<lparr>name = ''A'', lat = 10, lng = 20\<rparr>] scene0
            = Inr st' \<and> length (markers st') = 2 \<and> set (markers st') \<subseteq> set (children (heap st' 1))"
  using C4_marker_count [OF scene0_ok, of "[\<lparr>name = ''A'', lat = 0, lng = 0\<rparr>, \<lparr>name = ''A'', lat = 10, lng = 20\<rparr>]"]
  by auto

text \<open>
  C7, as stated, fails: \<open>handleMarkerHover\<close> writes the hovered index and the cursor
  before it looks the marker up.  With an empty marker collection, hovering index \<open>0\<close>
  records \<open>0\<close> as hovered and sets the cursor to \<open>pointer\<close>.
\<close>

theorem C7_counterexample:
  "marker_at (markers scene0) 0 = None \<and>
   handleMarkerHover 0 True scene0 = Inr (scene0\<lparr>hoveredMarker := Some 0, cursor := ''pointer''\<rparr>) \<and>
   scene0\<lparr>hoveredMarker := Some 0, cursor := ''pointer''\<rparr> \<noteq> scene0"
proof -
  have "hoveredMarker (scene0\<lparr>hoveredMarker := Some 0, cursor := ''pointer''\<rparr>) \<noteq> hoveredMarker scene0"
    by (simp add: scene0_def)
  then have "scene0\<lparr>hoveredMarker := Some 0, cursor := ''pointer''\<rparr> \<noteq> scene0"
    by metis
  then show ?thesis
    by (simp add: handleMarkerHover_def marker_at_def scene0_def)
qed

text \<open>
  C7, amended.  For an index with no marker in the collection, \<open>handleMarkerHover\<close>
  raises no error and recolours nothing (the store is unchanged); it still writes the
  hovered-index record (the index, or absent) and the cursor (\<open>pointer\<close>, or \<open>auto\<close>).
\<close>

theorem C7_hover_without_marker:
  assumes "marker_at (markers st) i = None"
  shows "handleMarkerHover i isHovered st =
           Inr (st\<lparr>hoveredMarker := (if isHovered then Some i else None),
                   cursor := (if isHovered then ''pointer'' else ''auto'')\<rparr>)"
  using assms by (simp add: handleMarkerHover_def)

theorem C7_hover_without_marker_witness:
  "marker_at (markers scene0) 5 = None \<and>
   handleMarkerHover 5 True scene0 = Inr (scene0\<lparr>hoveredMarker := Some 5, cursor := ''pointer''\<rparr>) \<and>
   handleMarkerHover (- 1) False scene0 = Inr (scene0\<lparr>hoveredMarker := None, cursor := ''auto''\<rparr>)"
proof -
  have a: "marker_at (markers scene0) 5 = None" and b: "marker_at (markers scene0) (- 1) = None"
    by (simp_all add: marker_at_def scene0_def)
  show ?thesis
    using a C7_hover_without_marker [OF a, of True] C7_hover_without_marker [OF b, of False]
    by simp
qed

text \<open>
  C8.  For an index with a marker present, hovering and then un-hovering both return;
  the sphere is \<open>#FFC857\<close> in between, and afterwards it is \<open>#d5aa0f\<close> again and the
  hovered-index record is absent.  When nothing was hovered before and the sphere had its
  base colour, the final state is the initial one, the cursor (now \<open>auto\<close>) apart.
\<close>

theorem C8_hover_round_trip:
  assumes "markers_ok st" and "marker_at (markers st) i = Some m"
  shows "\<exists>st1 st2.
           handleMarkerHover i True st = Inr st1 \<and> handleMarkerHover i False st1 = Inr st2 \<and>
           sphere_color st1 m = Some ''#FFC857'' \<and>
           sphere_color st2 m = Some ''#d5aa0f'' \<and> hoveredMarker st2 = None \<and>
           markers st2 = markers st \<and>
           (hoveredMarker st = None \<and> sphere_color st m = Some ''#d5aa0f'' \<longrightarrow>
              st2 = st\<lparr>cursor := ''auto''\<rparr>)"
proof -
  have "m \<in> set (markers st)"
    using assms(2) by (auto simp: marker_at_def split: if_splits)
  then have "marker_shaped (heap st) m"
    using assms(1) by (simp add: markers_ok_def)
  then obtain s l where c: "children (heap st m) = [s, l]" and k: "kind (heap st s) = Mesh"
    and cs: "children (heap st s) = []"
    by (auto simp: marker_shaped_def split: list.splits)
  have ne: "s \<noteq> m" using c cs by auto
  have restored: "st\<lparr>hoveredMarker := None, cursor := ''auto'',
                 heap := (heap st)(s := heap st s\<lparr>color := ''#d5aa0f''\<rparr>)\<rparr> = st\<lparr>cursor := ''auto''\<rparr>"
    if "hoveredMarker st = None" and "color (heap st s) = ''#d5aa0f''"
  proof -
    have "heap st s\<lparr>color := color (heap st s)\<rparr> = heap st s" by simp
    then have "(heap st)(s := heap st s\<lparr>color := ''#d5aa0f''\<rparr>) = heap st"
      using that(2) by (simp add: fun_upd_idem)
    moreover have "st\<lparr>hoveredMarker := hoveredMarker st, cursor := ''auto'', heap := heap st\<rparr>
        = st\<lparr>cursor := ''auto''\<rparr>" by simp
    ultimately show ?thesis using that(1) by simp
  qed
  show ?thesis
    using assms(2) c k ne restored
    by (auto simp: handleMarkerHover_def set_sphere_color_def sphere_color_def Let_def)
qed

lemma scene0_rebuilt_marker:
  "markers_ok (rebuilt 1 [loc_A] scene0)"
  "marker_at (markers (rebuilt 1 [loc_A] scene0)) 0 = Some 2"
proof -
  have g: "1 < next_id scene0" by (simp add: scene0_def)
  show "markers_ok (rebuilt 1 [loc_A] scene0)" by (rule rebuilt_markers_ok [OF g])
  have n: "next_id scene0 = 2" by (simp add: scene0_def)
  have "markers (rebuilt 1 [loc_A] scene0) = new_ids (next_id scene0) (length [loc_A])"
    by (rule rebuilt_markers(1) [OF g])
  then have "markers (rebuilt 1 [loc_A] scene0) = [2]"
    by (simp only: n) (simp add: new_ids_def)
  then show "marker_at (markers (rebuilt 1 [loc_A] scene0)) 0 = Some 2"
    by (simp add: marker_at_def)
qed

theorem C8_hover_round_trip_witness:
  "\<exists>st1 st2. handleMarkerHover 0 True (rebuilt 1 [loc_A] scene0) = Inr st1 \<and>
      handleMarkerHover 0 False st1 = Inr st2 \<and>
      sphere_color st1 2 = Some ''#FFC857'' \<and>
      sphere_color st2 2 = Some ''#d5aa0f'' \<and> hoveredMarker st2 = None"
  using C8_hover_round_trip [OF scene0_rebuilt_marker] by blast

lemma rebuilt_old_fields:
  assumes "g < next_id st" "i < next_id st"
  shows "kind (heap (rebuilt g locs st) i) = kind (heap st i)"
    and "position (heap (rebuilt g locs st) i) = position (heap st i)"
    and "i \<noteq> g \<Longrightarrow> children (heap (rebuilt g locs st) i) = children (heap st i)"
proof -
  show "kind (heap (rebuilt g locs st) i) = kind (heap st i)"
    using rebuilt_markers(5,6) [OF assms(1), where locs=locs] assms(2) by (cases "i = g") simp_all
  show "i \<noteq> g \<Longrightarrow> children (heap (rebuilt g locs st) i) = children (heap st i)"
    using rebuilt_markers(6) [OF assms(1), where locs=locs and i=i] assms(2) by simp
  show "position (heap (rebuilt g locs st) i) = position (heap st i)"
  proof (cases "i = g")
    case True
    have "heap (rebuilt g locs st) g =
        (heap (cleared g st) g)\<lparr>children := children (heap (cleared g st) g) @
           new_ids (next_id (cleared g st)) (length locs)\<rparr>"
      unfolding rebuilt_def by (rule fold_create_group) (simp add: assms(1))
    then show ?thesis using True by simp
  next
    case False
    then show ?thesis using rebuilt_markers(6) [OF assms(1), where locs=locs and i=i] assms(2) by simp
  qed
qed

lemma rebuilt_find_group:
  assumes "store_ok st" "scene st = Some sc" "find_group st sc = Some g"
  shows "find_group (rebuilt g locs st) sc = Some g"
proof -
  note ga = group_allocated [OF assms]
  have ch: "children (heap (rebuilt g locs st) sc) = children (heap st sc)"
    using rebuilt_old_fields(3) [OF ga(1,2,3)] .
  have "List.find (\<lambda>c. kind (heap (rebuilt g locs st) c) = Group) (children (heap st sc))
      = List.find (\<lambda>c. kind (heap st c) = Group) (children (heap st sc))"
  proof (rule find_cong [OF refl])
    fix c assume "c \<in> set (children (heap st sc))"
    then have "c < next_id st" using assms(1) ga(2) by (auto simp: store_ok_def)
    then show "(kind (heap (rebuilt g locs st) c) = Group) = (kind (heap st c) = Group)"
      by (simp add: rebuilt_old_fields(1) [OF ga(1)])
  qed
  then show ?thesis using assms(3) by (simp add: find_group_def ch)
qed

lemma store_ok_create_marker:
  assumes "store_ok st" "g < next_id st"
  shows "store_ok (create_marker g loc st)"
  using assms
  by (auto simp: store_ok_def create_marker_closed marker_object_def sphere_object_def
      light_object_def less_Suc_eq split: option.splits)

lemma store_ok_fold_create:
  "store_ok st \<Longrightarrow> g < next_id st \<Longrightarrow> store_ok (fold (create_marker g) locs st)"
  by (induction locs arbitrary: st) (simp_all add: store_ok_create_marker create_marker_next_id)

lemma store_ok_cleared: "store_ok st \<Longrightarrow> store_ok (cleared g st)"
  by (simp add: store_ok_def split: option.splits)

lemma store_ok_rebuilt: "store_ok st \<Longrightarrow> g < next_id st \<Longrightarrow> store_ok (rebuilt g locs st)"
  by (simp add: rebuilt_def store_ok_fold_create store_ok_cleared)

lemma fold_clear_step_disposes:
  assumes "m \<in> set ms" "c \<in> set (children (h m))" "kind (h c) = Mesh"
  shows "geometry_disposed (fold (clear_step g) ms h c) \<and>
         material_disposed (fold (clear_step g) ms h c)"
  using assms
proof (induction ms arbitrary: h)
  case Nil then show ?case by simp
next
  case (Cons a ms)
  show ?case
  proof (cases "a = m")
    case True
    have "geometry_disposed (clear_step g m h c)" "material_disposed (clear_step g m h c)"
      using Cons.prems(2,3) by (simp_all add: clear_step_flags)
    then show ?thesis using True by (simp add: fold_clear_step_mono)
  next
    case False
    then have "m \<in> set ms" using Cons.prems(1) by simp
    moreover have "c \<in> set (children (clear_step g a h m))"
      using Cons.prems(2) by simp
    moreover have "kind (clear_step g a h c) = Mesh" using Cons.prems(3) by simp
    ultimately show ?thesis using Cons.IH [of "clear_step g a h"] by simp
  qed
qed

text \<open>
  Two marker rebuilds in a row, with the same locations: the second gives as many markers
  at the same positions and disposes the meshes of the first; the markers of the first
  stay children of the Globe Group, whose list of children grows by the new markers at
  every rebuild.
\<close>

lemma marker_rebuild_twice:
  fixes locs :: "location list"
  assumes "store_ok st" and "markers_ok st"
    and "scene st = Some sc" and "find_group st sc = Some g"
  defines "st1 \<equiv> rebuilt g locs st"
  defines "st2 \<equiv> rebuilt g locs st1"
  shows "createMarkers locs st = Inr st1" and "createMarkers locs st1 = Inr st2"
    and "markers st1 = new_ids (next_id st) (length locs)"
    and "markers st2 = new_ids (next_id st + 3 * length locs) (length locs)"
    and "map (\<lambda>m. position (heap st2 m)) (markers st2)
           = map (\<lambda>m. position (heap st1 m)) (markers st1)"
    and "children (heap st1 g) = children (heap st g) @ markers st1"
    and "children (heap st2 g) = children (heap st g) @ markers st1 @ markers st2"
    and "\<forall>m\<in>set (markers st1). \<forall>c\<in>set (children (heap st1 m)). kind (heap st1 c) = Mesh \<longrightarrow>
           geometry_disposed (heap st2 c) \<and> material_disposed (heap st2 c)"
proof -
  note ga = group_allocated [OF assms(1,3,4)]
  let ?n = "next_id st" and ?N = "length locs"
  show r1: "createMarkers locs st = Inr st1"
    unfolding st1_def by (rule createMarkers_result [OF assms(1-4)])
  have ok1: "store_ok st1" "markers_ok st1"
    unfolding st1_def by (simp_all add: store_ok_rebuilt rebuilt_markers_ok assms(1) ga(1))
  have sc1: "scene st1 = Some sc"
    unfolding st1_def by (simp add: rebuilt_markers(3) [OF ga(1)] assms(3))
  have fg1: "find_group st1 sc = Some g"
    unfolding st1_def by (rule rebuilt_find_group [OF assms(1,3,4)])
  have n1: "next_id st1 = ?n + 3 * ?N"
    unfolding st1_def by (rule rebuilt_markers(2) [OF ga(1)])
  have g1: "g < next_id st1" using ga(1) n1 by simp
  show r2: "createMarkers locs st1 = Inr st2"
    unfolding st2_def by (rule createMarkers_result [OF ok1 sc1 fg1])
  show m1: "markers st1 = new_ids ?n ?N"
    unfolding st1_def by (rule rebuilt_markers(1) [OF ga(1)])
  show m2: "markers st2 = new_ids (?n + 3 * ?N) ?N"
    unfolding st2_def using rebuilt_markers(1) [OF g1, where locs=locs] n1 by simp
  show "map (\<lambda>m. position (heap st2 m)) (markers st2)
           = map (\<lambda>m. position (heap st1 m)) (markers st1)"
    unfolding st2_def st1_def
    by (simp only: rebuilt_positions [OF ga(1)] rebuilt_positions [OF g1 [unfolded st1_def]])
  show c1: "children (heap st1 g) = children (heap st g) @ markers st1"
    unfolding st1_def by (simp add: rebuilt_markers(1,4) [OF ga(1)])
  show c2: "children (heap st2 g) = children (heap st g) @ markers st1 @ markers st2"
    unfolding st2_def using rebuilt_markers(1,4) [OF g1, where locs=locs] c1
    by (simp add: st1_def)
  show "\<forall>m\<in>set (markers st1). \<forall>c\<in>set (children (heap st1 m)). kind (heap st1 c) = Mesh \<longrightarrow>
           geometry_disposed (heap st2 c) \<and> material_disposed (heap st2 c)"
  proof (intro ballI conjI impI)
    fix m c assume m: "m \<in> set (markers st1)"
      and c: "c \<in> set (children (heap st1 m))" and mesh: "kind (heap st1 c) = Mesh"
    obtain k where k: "k < ?N" "m = ?n + 3 * k" using m by (auto simp: m1 in_new_ids)
    have "heap st1 m = marker_object g m (locs ! k)"
      using rebuilt_markers(7) [OF ga(1) k(1)] k(2) by (simp add: st1_def)
    then have "c = Suc m \<or> c = Suc (Suc m)" using c by (auto simp: marker_object_def)
    then have c_old: "c < next_id st1" "c \<noteq> g" using k ga(1) n1 by auto
    have "heap st2 c = heap (cleared g st1) c"
      unfolding st2_def by (rule rebuilt_markers(6) [OF g1 c_old])
    moreover have "geometry_disposed (heap (cleared g st1) c) \<and>
        material_disposed (heap (cleared g st1) c)"
      unfolding cleared_def using fold_clear_step_disposes [OF m c mesh] by simp
    ultimately show "geometry_disposed (heap st2 c)" "material_disposed (heap st2 c)"
      by simp_all
  qed
qed

section \<open>Line layer: rebuild\<close>

lemma create_line_skip:
  "\<not> resolves locs (snd ic) \<Longrightarrow> create_line g locs ic st = st"
  by (auto simp: create_line_def resolves_def split: option.splits)

lemma create_line_closed:
  assumes "resolves locs (snd ic)" "g < next_id st"
  shows "create_line g locs ic st =
    st\<lparr>next_id := Suc (next_id st),
       heap := (heap st)
         (next_id st := line_object g locs (snd ic),
          g := (heap st g)\<lparr>children := children (heap st g) @ [next_id st]\<rparr>),
       lines := lines st @ [next_id st],
       lineProgress := (lineProgress st)(fst ic \<mapsto> 0)\<rparr>"
  using assms
  by (auto simp: create_line_def resolves_def alloc_def add_def new_object_def Let_def
      line_object_def arc_start_def arc_end_def split: option.splits)

lemma kept_simps [simp]:
  "kept locs [] = []"
  "resolves locs (snd ic) \<Longrightarrow> kept locs (ic # ics) = snd ic # kept locs ics"
  "\<not> resolves locs (snd ic) \<Longrightarrow> kept locs (ic # ics) = kept locs ics"
  by (simp_all add: kept_def)

lemma kept_enumerate: "kept locs (enumerate n cs) = filter (resolves locs) cs"
  by (simp add: kept_def)

lemma line_ids_Suc: "line_ids n (Suc R) = n # line_ids (Suc n) R"
  by (simp add: line_ids_def upt_rec [of 0] map_Suc_upt [symmetric] del: upt_Suc)

lemma line_ids_0 [simp]: "line_ids n 0 = []"
  by (simp add: line_ids_def)

lemma in_line_ids: "l \<in> set (line_ids n R) \<longleftrightarrow> n \<le> l \<and> l < n + R"
  by (auto simp: line_ids_def image_iff intro: le_Suc_ex) 

lemma length_line_ids [simp]: "length (line_ids n R) = R"
  by (simp add: line_ids_def)

lemma line_ids_nth: "k < R \<Longrightarrow> line_ids n R ! k = n + k"
  by (simp add: line_ids_def)

lemma distinct_line_ids: "distinct (line_ids n R)"
  by (simp add: line_ids_def distinct_map inj_on_def)

lemma create_line_next_id:
  "g < next_id st \<Longrightarrow>
   next_id (create_line g locs ic st) = (if resolves locs (snd ic) then Suc (next_id st) else next_id st)"
  by (simp add: create_line_closed create_line_skip)

lemma fold_lines_next_id:
  "g < next_id st \<Longrightarrow>
   next_id (fold (create_line g locs) ics st) = next_id st + length (kept locs ics)"
  by (induction ics arbitrary: st) (simp_all add: create_line_next_id)

lemma fold_lines_lines:
  "g < next_id st \<Longrightarrow>
   lines (fold (create_line g locs) ics st)
     = lines st @ line_ids (next_id st) (length (kept locs ics))"
proof (induction ics arbitrary: st)
  case Nil then show ?case by simp
next
  case (Cons ic ics)
  show ?case
  proof (cases "resolves locs (snd ic)")
    case True
    have "g < next_id (create_line g locs ic st)"
      using Cons.prems by (simp add: create_line_next_id)
    from Cons.IH [OF this] show ?thesis
      using True Cons.prems by (simp add: create_line_closed line_ids_Suc)
  next
    case False
    then show ?thesis using Cons by (simp add: create_line_skip)
  qed
qed

lemma fold_lines_old:
  "g < next_id st \<Longrightarrow> i < next_id st \<Longrightarrow> i \<noteq> g \<Longrightarrow>
   heap (fold (create_line g locs) ics st) i = heap st i"
proof (induction ics arbitrary: st)
  case Nil then show ?case by simp
next
  case (Cons ic ics)
  have "heap (create_line g locs ic st) i = heap st i"
    using Cons.prems by (cases "resolves locs (snd ic)") (simp_all add: create_line_closed create_line_skip)
  moreover have "g < next_id (create_line g locs ic st)" "i < next_id (create_line g locs ic st)"
    using Cons.prems by (simp_all add: create_line_next_id)
  ultimately show ?case using Cons.IH [of "create_line g locs ic st"] Cons.prems(3) by simp
qed

lemma fold_lines_group:
  "g < next_id st \<Longrightarrow>
   heap (fold (create_line g locs) ics st) g =
   (heap st g)\<lparr>children := children (heap st g) @ line_ids (next_id st) (length (kept locs ics))\<rparr>"
proof (induction ics arbitrary: st)
  case Nil then show ?case by simp
next
  case (Cons ic ics)
  show ?case
  proof (cases "resolves locs (snd ic)")
    case True
    have "g < next_id (create_line g locs ic st)"
      using Cons.prems by (simp add: create_line_next_id)
    from Cons.IH [OF this] show ?thesis
      using True Cons.prems by (simp add: create_line_closed line_ids_Suc)
  next
    case False
    then show ?thesis using Cons by (simp add: create_line_skip)
  qed
qed

lemma fold_lines_new:
  "g < next_id st \<Longrightarrow> k < length (kept locs ics) \<Longrightarrow>
   heap (fold (create_line g locs) ics st) (next_id st + k) = line_object g locs (kept locs ics ! k)"
proof (induction ics arbitrary: st k)
  case Nil then show ?case by simp
next
  case (Cons ic ics)
  show ?case
  proof (cases "resolves locs (snd ic)")
    case True
    let ?st1 = "create_line g locs ic st"
    have g1: "g < next_id ?st1" and n1: "next_id ?st1 = Suc (next_id st)"
      using Cons.prems True by (simp_all add: create_line_next_id)
    show ?thesis
    proof (cases k)
      case 0
      have "heap (fold (create_line g locs) ics ?st1) (next_id st) = heap ?st1 (next_id st)"
        using Cons.prems(1) by (intro fold_lines_old g1) (simp_all add: n1)
      then show ?thesis using 0 True Cons.prems(1) by (simp add: create_line_closed)
    next
      case (Suc j)
      then have "j < length (kept locs ics)" using Cons.prems(2) True by simp
      from Cons.IH [OF g1 this] show ?thesis using Suc True n1 by simp
    qed
  next
    case False
    then show ?thesis using Cons by (simp add: create_line_skip)
  qed
qed

lemma create_line_frame:
  "g < next_id st \<Longrightarrow>
   (create_line g locs ic st)\<lparr>heap := heap st, next_id := next_id st, lines := lines st,
      lineProgress := lineProgress st\<rparr> = st"
  by (cases "resolves locs (snd ic)") (simp_all add: create_line_closed create_line_skip)

lemma fold_lines_frame:
  "g < next_id st \<Longrightarrow>
   (fold (create_line g locs) ics st)\<lparr>heap := heap st, next_id := next_id st, lines := lines st,
      lineProgress := lineProgress st\<rparr> = st"
proof (induction ics arbitrary: st)
  case Nil then show ?case by simp
next
  case (Cons a ics)
  let ?st1 = "create_line g locs a st"
  let ?f = "\<lambda>s::state. s\<lparr>heap := heap st, next_id := next_id st, lines := lines st,
      lineProgress := lineProgress st\<rparr>"
  have "g < next_id ?st1" using Cons.prems by (simp add: create_line_next_id)
  from Cons.IH [OF this]
  have "?f ((fold (create_line g locs) ics ?st1)\<lparr>heap := heap ?st1, next_id := next_id ?st1,
          lines := lines ?st1, lineProgress := lineProgress ?st1\<rparr>) = ?f ?st1"
    by (rule arg_cong)
  then show ?case using create_line_frame [OF Cons.prems, of locs a] by simp
qed

lemma animate_line_closed:
  "animate_line t il st =
     st\<lparr>lineProgress := (lineProgress st)
          (fst il \<mapsto> js_mod1 (fl (fl (t * fl 0.5) + fl (real (fst il) * fl 0.2)))),
        heap := (heap st)(snd il := (heap st (snd il))
          \<lparr>opacity := fl (fl (Math_sin (fl (t + fl (real (fst il) * fl 0.2))) * fl 0.3) + fl 0.7),
           colors := map (\<lambda>(i, c). if i < length (points (heap st (snd il)))
                     then (1, 1, 1, if int i \<le> \<lfloor>fl (real (length (points (heap st (snd il)))) *
                               js_mod1 (fl (fl (t * fl 0.5) + fl (real (fst il) * fl 0.2))))\<rfloor>
                                    then 1 else 0)
                     else c) (enumerate 0 (colors (heap st (snd il))))\<rparr>)\<rparr>"
  by (simp add: animate_line_def Let_def)

lemma animate_line_fields [simp]:
  "kind (heap (animate_line t il st) x) = kind (heap st x)"
  "children (heap (animate_line t il st) x) = children (heap st x)"
  "parent (heap (animate_line t il st) x) = parent (heap st x)"
  "points (heap (animate_line t il st) x) = points (heap st x)"
  "position (heap (animate_line t il st) x) = position (heap st x)"
  "color (heap (animate_line t il st) x) = color (heap st x)"
  "geometry_disposed (heap (animate_line t il st) x) = geometry_disposed (heap st x)"
  "material_disposed (heap (animate_line t il st) x) = material_disposed (heap st x)"
  by (simp_all add: animate_line_closed)

lemma animate_line_frame:
  "(animate_line t il st)\<lparr>heap := heap st, lineProgress := lineProgress st\<rparr> = st"
  by (simp add: animate_line_closed)

lemma fold_animate_fields [simp]:
  "kind (heap (fold (animate_line t) ils st) x) = kind (heap st x)"
  "children (heap (fold (animate_line t) ils st) x) = children (heap st x)"
  "parent (heap (fold (animate_line t) ils st) x) = parent (heap st x)"
  "points (heap (fold (animate_line t) ils st) x) = points (heap st x)"
  "position (heap (fold (animate_line t) ils st) x) = position (heap st x)"
  "color (heap (fold (animate_line t) ils st) x) = color (heap st x)"
  "geometry_disposed (heap (fold (animate_line t) ils st) x) = geometry_disposed (heap st x)"
  "material_disposed (heap (fold (animate_line t) ils st) x) = material_disposed (heap st x)"
  by (induction ils arbitrary: st) simp_all

lemma fold_animate_frame:
  "(fold (animate_line t) ils st)\<lparr>heap := heap st, lineProgress := lineProgress st\<rparr> = st"
proof (induction ils arbitrary: st)
  case Nil then show ?case by simp
next
  case (Cons a ils)
  let ?st1 = "animate_line t a st"
  let ?f = "\<lambda>s::state. s\<lparr>heap := heap st, lineProgress := lineProgress st\<rparr>"
  have "?f ((fold (animate_line t) ils ?st1)\<lparr>heap := heap ?st1, lineProgress := lineProgress ?st1\<rparr>)
      = ?f ?st1"
    using Cons.IH [of ?st1] by (rule arg_cong)
  then show ?case using animate_line_frame [where t=t and il=a and st=st] by simp
qed

lemma fold_animate_other [simp]:
  "next_id (fold (animate_line t) ils st) = next_id st"
  "lines (fold (animate_line t) ils st) = lines st"
  "markers (fold (animate_line t) ils st) = markers st"
  "scene (fold (animate_line t) ils st) = scene st"
  "init_pc (fold (animate_line t) ils st) = init_pc st"
  "globeGroup (fold (animate_line t) ils st) = globeGroup st"
  "raf_queue (fold (animate_line t) ils st) = raf_queue st"
  "raf_next (fold (animate_line t) ils st) = raf_next st"
  by (induction ils arbitrary: st) (simp_all add: animate_line_closed)

lemma animate_fields [simp]:
  "kind (heap (animate now st) x) = kind (heap st x)"
  "children (heap (animate now st) x) = children (heap st x)"
  "parent (heap (animate now st) x) = parent (heap st x)"
  "points (heap (animate now st) x) = points (heap st x)"
  "position (heap (animate now st) x) = position (heap st x)"
  "color (heap (animate now st) x) = color (heap st x)"
  "geometry_disposed (heap (animate now st) x) = geometry_disposed (heap st x)"
  "material_disposed (heap (animate now st) x) = material_disposed (heap st x)"
  by (simp_all add: animate_def requestAnimationFrame_def Let_def)

lemma animate_other [simp]:
  "next_id (animate now st) = next_id st"
  "lines (animate now st) = lines st"
  "markers (animate now st) = markers st"
  "scene (animate now st) = scene st"
  "init_pc (animate now st) = init_pc st"
  "globeGroup (animate now st) = globeGroup st"
  "raf_queue (animate now st) = raf_queue st @ [(raf_next st, LinesAnimate)]"
  "raf_next (animate now st) = Suc (raf_next st)"
  "animationFrameId (animate now st) = Some (raf_next st)"
  by (simp_all add: animate_def requestAnimationFrame_def Let_def)

lemma dispose_line_fields [simp]:
  "kind (dispose_line l h x) = kind (h x)"
  "children (dispose_line l h x) = children (h x)"
  "points (dispose_line l h x) = points (h x)"
  "position (dispose_line l h x) = position (h x)"
  "geometry_disposed (dispose_line l h x) = (geometry_disposed (h x) \<or> x = l)"
  "material_disposed (dispose_line l h x) = (material_disposed (h x) \<or> x = l)"
  by (auto simp: dispose_line_def)

lemma clear_line_fields [simp]:
  "kind (clear_line g l h x) = kind (h x)"
  "children (clear_line g l h x) = children (h x)"
  "points (clear_line g l h x) = points (h x)"
  "position (clear_line g l h x) = position (h x)"
  "geometry_disposed (clear_line g l h x) = (geometry_disposed (h x) \<or> x = l)"
  "material_disposed (clear_line g l h x) = (material_disposed (h x) \<or> x = l)"
  by (simp_all add: clear_line_def)

lemma fold_clear_line_fields [simp]:
  "kind (fold (clear_line g) ls h x) = kind (h x)"
  "children (fold (clear_line g) ls h x) = children (h x)"
  "points (fold (clear_line g) ls h x) = points (h x)"
  "position (fold (clear_line g) ls h x) = position (h x)"
  "geometry_disposed (fold (clear_line g) ls h x) = (geometry_disposed (h x) \<or> x \<in> set ls)"
  "material_disposed (fold (clear_line g) ls h x) = (material_disposed (h x) \<or> x \<in> set ls)"
  by (induction ls arbitrary: h) auto

lemma createLines_result:
  assumes "scene st = Some sc" "find_group st sc = Some g"
  shows "createLines locs conns now st = animate now (lines_rebuilt g locs conns st)"
  by (simp add: createLines_def assms Let_def lines_rebuilt_def lines_cleared_def)

lemma lines_cleared_simps [simp]:
  "next_id (lines_cleared g st) = next_id st"
  "lines (lines_cleared g st) = []"
  "scene (lines_cleared g st) = scene st"
  "kind (heap (lines_cleared g st) x) = kind (heap st x)"
  "children (heap (lines_cleared g st) x) = children (heap st x)"
  "points (heap (lines_cleared g st) x) = points (heap st x)"
  "geometry_disposed (heap (lines_cleared g st) x) = (geometry_disposed (heap st x) \<or> x \<in> set (lines st))"
  "material_disposed (heap (lines_cleared g st) x) = (material_disposed (heap st x) \<or> x \<in> set (lines st))"
  by (simp_all add: lines_cleared_def)

lemma lines_rebuilt_facts:
  fixes locs :: "location list" and conns :: "connection list" and g :: nat and st :: state
  assumes "g < next_id st"
  defines "st' \<equiv> lines_rebuilt g locs conns st"
  defines "cs \<equiv> filter (resolves locs) conns"
  shows "lines st' = line_ids (next_id st) (length cs)"
    and "next_id st' = next_id st + length cs"
    and "scene st' = scene st"
    and "children (heap st' g) = children (heap st g) @ line_ids (next_id st) (length cs)"
    and "\<And>i. i < next_id st \<Longrightarrow> i \<noteq> g \<Longrightarrow> heap st' i = heap (lines_cleared g st) i"
    and "\<And>k. k < length cs \<Longrightarrow> heap st' (next_id st + k) = line_object g locs (cs ! k)"
    and "heap st' g = (heap (lines_cleared g st) g)
           \<lparr>children := children (heap (lines_cleared g st) g) @ line_ids (next_id st) (length cs)\<rparr>"
proof -
  have g: "g < next_id (lines_cleared g st)" using assms(1) by simp
  note k = kept_enumerate [of locs 0 conns]
  show "lines st' = line_ids (next_id st) (length cs)"
    unfolding st'_def cs_def lines_rebuilt_def
    using fold_lines_lines [OF g, of locs "enumerate 0 conns"] by (simp add: k)
  show "next_id st' = next_id st + length cs"
    unfolding st'_def cs_def lines_rebuilt_def
    using fold_lines_next_id [OF g, of locs "enumerate 0 conns"] by (simp add: k)
  show "scene st' = scene st"
    unfolding st'_def lines_rebuilt_def
    using arg_cong [OF fold_lines_frame [OF g, of locs "enumerate 0 conns"], of scene] by simp
  show gg: "heap st' g = (heap (lines_cleared g st) g)
           \<lparr>children := children (heap (lines_cleared g st) g) @ line_ids (next_id st) (length cs)\<rparr>"
    unfolding st'_def cs_def lines_rebuilt_def
    using fold_lines_group [OF g, of locs "enumerate 0 conns"] by (simp add: k)
  show "children (heap st' g) = children (heap st g) @ line_ids (next_id st) (length cs)"
    by (simp add: gg)
  show "\<And>i. i < next_id st \<Longrightarrow> i \<noteq> g \<Longrightarrow> heap st' i = heap (lines_cleared g st) i"
    unfolding st'_def lines_rebuilt_def
    using fold_lines_old [OF g, where locs=locs and ics="enumerate 0 conns"] by simp
  show "\<And>k. k < length cs \<Longrightarrow> heap st' (next_id st + k) = line_object g locs (cs ! k)"
    unfolding st'_def cs_def lines_rebuilt_def
    using fold_lines_new [OF g, where locs=locs and ics="enumerate 0 conns"] by (simp add: k)
qed

lemma lines_rebuilt_points:
  assumes "g < next_id st"
  shows "map (\<lambda>l. points (heap (lines_rebuilt g locs conns st) l))
             (lines (lines_rebuilt g locs conns st))
       = map (\<lambda>c. curve_points (arc_start locs c) (arc_end locs c)) (filter (resolves locs) conns)"
  by (rule nth_equalityI)
     (simp_all add: lines_rebuilt_facts(1,6) [OF assms] line_ids_nth line_object_def)

lemma lines_rebuilt_old_fields:
  assumes "g < next_id st" "i < next_id st"
  shows "kind (heap (lines_rebuilt g locs conns st) i) = kind (heap st i)"
    and "i \<noteq> g \<Longrightarrow> children (heap (lines_rebuilt g locs conns st) i) = children (heap st i)"
    and "geometry_disposed (heap (lines_rebuilt g locs conns st) i)
           = (geometry_disposed (heap st i) \<or> i \<in> set (lines st))"
    and "material_disposed (heap (lines_rebuilt g locs conns st) i)
           = (material_disposed (heap st i) \<or> i \<in> set (lines st))"
  using lines_rebuilt_facts(5,7) [OF assms(1), where locs=locs and conns=conns] assms(2)
  by (cases "i = g"; simp)+

lemma createLines_find_group:
  assumes "store_ok st" "scene st = Some sc" "find_group st sc = Some g"
  shows "find_group (createLines locs conns now st) sc = Some g"
proof -
  note ga = group_allocated [OF assms]
  let ?st' = "createLines locs conns now st"
  have eq: "?st' = animate now (lines_rebuilt g locs conns st)"
    by (rule createLines_result [OF assms(2,3)])
  have ch: "children (heap ?st' sc) = children (heap st sc)"
    by (simp add: eq lines_rebuilt_old_fields(2) [OF ga(1,2,3)])
  have "List.find (\<lambda>c. kind (heap ?st' c) = Group) (children (heap st sc))
      = List.find (\<lambda>c. kind (heap st c) = Group) (children (heap st sc))"
  proof (rule find_cong [OF refl])
    fix c assume "c \<in> set (children (heap st sc))"
    then have "c < next_id st" using assms(1) ga(2) by (auto simp: store_ok_def)
    then show "(kind (heap ?st' c) = Group) = (kind (heap st c) = Group)"
      by (simp add: eq lines_rebuilt_old_fields(1) [OF ga(1)])
  qed
  then show ?thesis using assms(3) by (simp add: find_group_def ch)
qed

lemma store_ok_create_line:
  assumes "store_ok st" "g < next_id st"
  shows "store_ok (create_line g locs ic st)"
proof (cases "resolves locs (snd ic)")
  case True
  then show ?thesis
    using assms
    by (auto simp: store_ok_def create_line_closed line_object_def less_Suc_eq split: option.splits)
next
  case False
  then show ?thesis using assms by (simp add: create_line_skip)
qed

lemma store_ok_fold_lines:
  "store_ok st \<Longrightarrow> g < next_id st \<Longrightarrow> store_ok (fold (create_line g locs) ics st)"
  by (induction ics arbitrary: st) (simp_all add: store_ok_create_line create_line_next_id)

lemma store_ok_lines_cleared: "store_ok st \<Longrightarrow> store_ok (lines_cleared g st)"
  by (simp add: store_ok_def split: option.splits)

lemma store_ok_animate: "store_ok st \<Longrightarrow> store_ok (animate now st)"
  by (simp add: store_ok_def split: option.splits)

lemma store_ok_createLines:
  assumes "store_ok st"
  shows "store_ok (createLines locs conns now st)"
proof (cases "scene st")
  case None
  then show ?thesis using assms by (simp add: createLines_def)
next
  case (Some sc)
  show ?thesis
  proof (cases "find_group st sc")
    case None
    then show ?thesis using assms Some by (simp add: createLines_def)
  next
    case (Some g)
    note ga = group_allocated [OF assms \<open>scene st = Some sc\<close> Some]
    show ?thesis
      unfolding createLines_result [OF \<open>scene st = Some sc\<close> Some] lines_rebuilt_def
      by (intro store_ok_animate store_ok_fold_lines store_ok_lines_cleared assms)
         (simp add: ga(1))
  qed
qed

lemma lines_rebuilt_raf:
  assumes "g < next_id st"
  shows "raf_queue (lines_rebuilt g locs conns st) = raf_queue st"
    and "raf_next (lines_rebuilt g locs conns st) = raf_next st"
    and "init_pc (lines_rebuilt g locs conns st) = init_pc st"
    and "globeGroup (lines_rebuilt g locs conns st) = globeGroup st"
    and "markers (lines_rebuilt g locs conns st) = markers st"
proof -
  have g: "g < next_id (lines_cleared g st)" using assms by simp
  note f = fold_lines_frame [OF g, of locs "enumerate 0 conns"]
  show "raf_queue (lines_rebuilt g locs conns st) = raf_queue st"
    unfolding lines_rebuilt_def using arg_cong [OF f, of raf_queue] by (simp add: lines_cleared_def)
  show "raf_next (lines_rebuilt g locs conns st) = raf_next st"
    unfolding lines_rebuilt_def using arg_cong [OF f, of raf_next] by (simp add: lines_cleared_def)
  show "init_pc (lines_rebuilt g locs conns st) = init_pc st"
    unfolding lines_rebuilt_def using arg_cong [OF f, of init_pc] by (simp add: lines_cleared_def)
  show "globeGroup (lines_rebuilt g locs conns st) = globeGroup st"
    unfolding lines_rebuilt_def using arg_cong [OF f, of globeGroup] by (simp add: lines_cleared_def)
  show "markers (lines_rebuilt g locs conns st) = markers st"
    unfolding lines_rebuilt_def using arg_cong [OF f, of markers] by (simp add: lines_cleared_def)
qed

lemma createLines_schedules:
  assumes "store_ok st" "scene st = Some sc" "find_group st sc = Some g"
  shows "raf_queue (createLines locs conns now st) = raf_queue st @ [(raf_next st, LinesAnimate)]"
    and "raf_next (createLines locs conns now st) = Suc (raf_next st)"
    and "animationFrameId (createLines locs conns now st) = Some (raf_next st)"
    and "scene (createLines locs conns now st) = Some sc"
  using group_allocated(1) [OF assms]
  by (simp_all add: createLines_result [OF assms(2,3)] lines_rebuilt_raf lines_rebuilt_facts(3) assms(2))

section \<open>Rebuilds: old visuals, and skipped connections\<close>

text \<open>
  Two line rebuilds in a row, with the same locations and connections: the second gives
  as many arcs with the same points and disposes the arcs of the first, which stay
  children of the Globe Group.
\<close>

lemma line_rebuild_twice:
  fixes locs :: "location list" and conns :: "connection list" and ta tb :: real
  assumes "store_ok st" and "scene st = Some sc" and "find_group st sc = Some g"
  defines "st1 \<equiv> createLines locs conns ta st"
  defines "st2 \<equiv> createLines locs conns tb st1"
  defines "R \<equiv> length (filter (resolves locs) conns)"
  shows "lines st1 = line_ids (next_id st) R"
    and "lines st2 = line_ids (next_id st + R) R"
    and "map (\<lambda>l. points (heap st2 l)) (lines st2) = map (\<lambda>l. points (heap st1 l)) (lines st1)"
    and "children (heap st1 g) = children (heap st g) @ lines st1"
    and "children (heap st2 g) = children (heap st g) @ lines st1 @ lines st2"
    and "\<forall>l\<in>set (lines st1). geometry_disposed (heap st2 l) \<and> material_disposed (heap st2 l)"
proof -
  note ga = group_allocated [OF assms(1,2,3)]
  let ?n = "next_id st"
  let ?r1 = "lines_rebuilt g locs conns st"
  have e1: "st1 = animate ta ?r1"
    unfolding st1_def by (rule createLines_result [OF assms(2,3)])
  have sc1: "scene st1 = Some sc" by (simp add: e1 lines_rebuilt_facts(3) [OF ga(1)] assms(2))
  have fg1: "find_group st1 sc = Some g"
    unfolding st1_def by (rule createLines_find_group [OF assms(1,2,3)])
  have n1: "next_id st1 = ?n + R" by (simp add: e1 R_def lines_rebuilt_facts(2) [OF ga(1)])
  have g1: "g < next_id st1" using ga(1) n1 by simp
  let ?r2 = "lines_rebuilt g locs conns st1"
  have e2: "st2 = animate tb ?r2"
    unfolding st2_def by (rule createLines_result [OF sc1 fg1])
  show l1: "lines st1 = line_ids ?n R" by (simp add: e1 R_def lines_rebuilt_facts(1) [OF ga(1)])
  show l2: "lines st2 = line_ids (?n + R) R"
    using lines_rebuilt_facts(1) [OF g1, where locs=locs and conns=conns] by (simp add: e2 n1 R_def)
  have "map (\<lambda>l. points (heap st1 l)) (lines st1)
      = map (\<lambda>c. curve_points (arc_start locs c) (arc_end locs c)) (filter (resolves locs) conns)"
    using lines_rebuilt_points [OF ga(1), of locs conns] by (simp add: e1)
  moreover have "map (\<lambda>l. points (heap st2 l)) (lines st2)
      = map (\<lambda>c. curve_points (arc_start locs c) (arc_end locs c)) (filter (resolves locs) conns)"
    using lines_rebuilt_points [OF g1, of locs conns] by (simp add: e2)
  ultimately show "map (\<lambda>l. points (heap st2 l)) (lines st2)
      = map (\<lambda>l. points (heap st1 l)) (lines st1)" by simp
  show c1: "children (heap st1 g) = children (heap st g) @ lines st1"
    by (simp add: e1 lines_rebuilt_facts(1,4) [OF ga(1)])
  have "children (heap st2 g) = children (heap st1 g) @ lines st2"
    using lines_rebuilt_facts(1,4) [OF g1, where locs=locs and conns=conns] by (simp add: e2)
  then show "children (heap st2 g) = children (heap st g) @ lines st1 @ lines st2"
    by (simp add: c1)
  show "\<forall>l\<in>set (lines st1). geometry_disposed (heap st2 l) \<and> material_disposed (heap st2 l)"
  proof (intro ballI conjI)
    fix l assume l: "l \<in> set (lines st1)"
    then have "l < next_id st1" by (simp add: l1 n1 in_line_ids)
    from lines_rebuilt_old_fields(3,4) [OF g1 this, of locs conns] l
    show "geometry_disposed (heap st2 l)" "material_disposed (heap st2 l)"
      by (simp_all add: e2)
  qed
qed

lemma scene0_fields:
  "next_id scene0 = 2" "children (heap scene0 1) = []"
  by (simp_all add: scene0_def new_object_def)

text \<open>
  C5.  Of two rebuilds in a row the second gives a collection of the same size at the
  same positions, and disposes the visuals of the first; it does not take them out of the
  Globe Group.  The sweep calls \<open>globeGroup.remove\<close> with the element of the deep ref, a
  reactive proxy, which is none of the group's children: nothing is removed.  With the
  Globe Group at address \<open>1\<close> and the locations \<open>A\<close> and \<open>B\<close>, the first marker rebuild
  builds the markers \<open>2\<close> and \<open>5\<close>, the second the markers \<open>8\<close> and \<open>11\<close> at the same
  positions; the sphere of marker \<open>2\<close> is disposed, and the group then has the four
  children \<open>2, 5, 8, 11\<close>.  With the connection from \<open>A\<close> to \<open>B\<close>, the first line rebuild
  builds the arc \<open>2\<close>, the second the arc \<open>3\<close> with the same points; the arc \<open>2\<close> is
  disposed, and the group has the two children \<open>2, 3\<close>.
\<close>

theorem C5_old_visuals_stay_in_group:
  "(\<exists>m1 m2.
      createMarkers [loc_A, loc_B] scene0 = Inr m1 \<and> createMarkers [loc_A, loc_B] m1 = Inr m2 \<and>
      markers m1 = [2, 5] \<and> children (heap m1 1) = [2, 5] \<and>
      markers m2 = [8, 11] \<and> children (heap m2 1) = [2, 5, 8, 11] \<and>
      map (\<lambda>m. position (heap m2 m)) (markers m2)
        = map (\<lambda>m. position (heap m1 m)) (markers m1) \<and>
      children (heap m1 2) = [3, 4] \<and> kind (heap m1 3) = Mesh \<and>
      geometry_disposed (heap m2 3) \<and> material_disposed (heap m2 3)) \<and>
   (let l1 = createLines [loc_A, loc_B] [conn_AB] 0 scene0;
        l2 = createLines [loc_A, loc_B] [conn_AB] 16 l1
    in lines l1 = [2] \<and> children (heap l1 1) = [2] \<and>
       lines l2 = [3] \<and> children (heap l2 1) = [2, 3] \<and>
       points (heap l2 3) = points (heap l1 2) \<and>
       geometry_disposed (heap l2 2) \<and> material_disposed (heap l2 2))"
proof (intro conjI)
  let ?locs = "[loc_A, loc_B]"
  let ?m1 = "rebuilt 1 ?locs scene0"
  let ?m2 = "rebuilt 1 ?locs ?m1"
  note m = marker_rebuild_twice [OF scene0_ok, of ?locs]
  have g: "1 < next_id scene0" by (simp add: scene0_fields)
  have ids: "new_ids n (Suc (Suc 0)) = [n, n + 3]" for n
    by (simp add: new_ids_def)
  have a1: "markers ?m1 = [2, 5]" using m(3) unfolding scene0_fields by (simp add: ids)
  have a2: "markers ?m2 = [8, 11]" using m(4) unfolding scene0_fields by (simp add: ids)
  have c1: "children (heap ?m1 1) = [2, 5]" using m(6) unfolding a1 scene0_fields by simp
  have c2: "children (heap ?m2 1) = [2, 5, 8, 11]"
    using m(7) unfolding a1 a2 scene0_fields by simp
  have o2: "heap ?m1 2 = marker_object 1 2 loc_A"
    using rebuilt_markers(7) [OF g, of 0 ?locs] unfolding scene0_fields by simp
  have o3: "heap ?m1 3 = sphere_object 2"
    using rebuilt_markers(8) [OF g, of 0 ?locs] unfolding scene0_fields by simp
  have k2: "children (heap ?m1 2) = [3, 4]"
    unfolding o2 by (simp add: marker_object_def)
  have k3: "kind (heap ?m1 3) = Mesh" unfolding o3 by (simp add: sphere_object_def)
  have "\<forall>c\<in>set (children (heap ?m1 2)). kind (heap ?m1 c) = Mesh \<longrightarrow>
      geometry_disposed (heap ?m2 c) \<and> material_disposed (heap ?m2 c)"
    using m(8) unfolding a1 by simp
  then have d: "geometry_disposed (heap ?m2 3) \<and> material_disposed (heap ?m2 3)"
    unfolding k2 using k3 by simp
  show "\<exists>m1 m2.
      createMarkers [loc_A, loc_B] scene0 = Inr m1 \<and> createMarkers [loc_A, loc_B] m1 = Inr m2 \<and>
      markers m1 = [2, 5] \<and> children (heap m1 1) = [2, 5] \<and>
      markers m2 = [8, 11] \<and> children (heap m2 1) = [2, 5, 8, 11] \<and>
      map (\<lambda>m. position (heap m2 m)) (markers m2)
        = map (\<lambda>m. position (heap m1 m)) (markers m1) \<and>
      children (heap m1 2) = [3, 4] \<and> kind (heap m1 3) = Mesh \<and>
      geometry_disposed (heap m2 3) \<and> material_disposed (heap m2 3)"
    using m(1,2,5) a1 a2 c1 c2 k2 k3 d by blast
  let ?l1 = "createLines ?locs [conn_AB] 0 scene0"
  let ?l2 = "createLines ?locs [conn_AB] 16 ?l1"
  note l1 = line_rebuild_twice(1,4) [OF scene0_ok(1,3,4), where locs="?locs"
      and conns="[conn_AB]" and ta=0]
  note l2 = line_rebuild_twice(2,3,5,6) [OF scene0_ok(1,3,4), where locs="?locs"
      and conns="[conn_AB]" and ta=0 and tb=16]
  have r: "filter (resolves ?locs) [conn_AB] = [conn_AB]"
    by (simp add: resolves_def loc_A_def loc_B_def conn_AB_def)
  have lids: "line_ids n (Suc 0) = [n]" for n
    by (simp add: line_ids_def)
  have b1: "lines ?l1 = [2]" using l1(1) unfolding r scene0_fields by (simp add: lids)
  have b2: "lines ?l2 = [3]" using l2(1) unfolding r scene0_fields by (simp add: lids)
  have e1: "children (heap ?l1 1) = [2]" using l1(2) unfolding b1 scene0_fields by simp
  have e2: "children (heap ?l2 1) = [2, 3]" using l2(3) unfolding b1 b2 scene0_fields by simp
  have pts: "points (heap ?l2 3) = points (heap ?l1 2)" using l2(2) unfolding b1 b2 by simp
  have dl: "geometry_disposed (heap ?l2 2) \<and> material_disposed (heap ?l2 2)"
    using l2(4) unfolding b1 by simp
  show "let l1 = createLines [loc_A, loc_B] [conn_AB] 0 scene0;
        l2 = createLines [loc_A, loc_B] [conn_AB] 16 l1
    in lines l1 = [2] \<and> children (heap l1 1) = [2] \<and>
       lines l2 = [3] \<and> children (heap l2 1) = [2, 3] \<and>
       points (heap l2 3) = points (heap l1 2) \<and>
       geometry_disposed (heap l2 2) \<and> material_disposed (heap l2 2)"
    using b1 b2 e1 e2 pts dl by (simp add: Let_def)
qed

text \<open>
  C3.  With the scene handle and the Globe Group present, the line rebuild builds one arc
  per connection whose two names both find a location, in the connections' order, and none
  for the others: the arcs' point lists are those of the resolved connections, and each arc
  is a child of the Globe Group.  With locations \<open>A, B\<close> and the one connection from \<open>A\<close>
  to a name that is neither, no arc is built.  (\<open>createLines\<close> has no failing
  operation: it returns a state.)
\<close>

theorem C3_unresolved_connections_skipped:
  assumes "store_ok st" and "scene st = Some sc" and "find_group st sc = Some g"
  shows "(let st' = createLines locs conns now st
          in map (\<lambda>l. points (heap st' l)) (lines st')
               = map (\<lambda>c. curve_points (arc_start locs c) (arc_end locs c))
                     (filter (resolves locs) conns) \<and>
             (\<forall>l\<in>set (lines st'). l \<in> set (children (heap st' g)) \<and> kind (heap st' l) = Line)) \<and>
         (name a \<noteq> c \<and> name b \<noteq> c \<longrightarrow>
            lines (createLines [a, b] [\<lparr>conn_from = name a, conn_to = c\<rparr>] now st) = [])"
proof -
  note ga = group_allocated [OF assms]
  have e: "createLines locs conns now st = animate now (lines_rebuilt g locs conns st)" for locs conns
    by (rule createLines_result [OF assms(2,3)])
  have 1: "map (\<lambda>l. points (heap (createLines locs conns now st) l)) (lines (createLines locs conns now st))
      = map (\<lambda>c. curve_points (arc_start locs c) (arc_end locs c)) (filter (resolves locs) conns)"
    using lines_rebuilt_points [OF ga(1), of locs conns] by (simp add: e)
  have 2: "\<forall>l\<in>set (lines (createLines locs conns now st)).
      l \<in> set (children (heap (createLines locs conns now st) g)) \<and>
      kind (heap (createLines locs conns now st) l) = Line"
  proof
    fix l assume "l \<in> set (lines (createLines locs conns now st))"
    then have l: "l \<in> set (line_ids (next_id st) (length (filter (resolves locs) conns)))"
      by (simp add: e lines_rebuilt_facts(1) [OF ga(1)])
    then obtain k where k: "k < length (filter (resolves locs) conns)" "l = next_id st + k"
      by (auto simp: in_line_ids intro: le_Suc_ex dest!: le_Suc_ex)
    show "l \<in> set (children (heap (createLines locs conns now st) g)) \<and>
      kind (heap (createLines locs conns now st) l) = Line"
      using l lines_rebuilt_facts(6) [OF ga(1) k(1)] k(2)
      by (simp add: e lines_rebuilt_facts(4) [OF ga(1)] line_object_def)
  qed
  have 3: "lines (createLines [a, b] [\<lparr>conn_from = name a, conn_to = c\<rparr>] now st) = []"
    if "name a \<noteq> c" "name b \<noteq> c"
    using that by (simp add: e lines_rebuilt_facts(1) [OF ga(1)] resolves_def)
  show ?thesis using 1 2 3 by (simp add: Let_def)
qed

theorem C3_unresolved_connections_skipped_witness:
  "lines (createLines [loc_A, loc_B] [conn_AC] 0 scene0) = [] \<and>
   length (lines (createLines [loc_A, loc_B] [conn_AC, conn_AB] 0 scene0)) = 1"
proof -
  have r: "filter (resolves [loc_A, loc_B]) [conn_AC, conn_AB] = [conn_AB]"
    by (simp add: resolves_def loc_A_def loc_B_def conn_AC_def conn_AB_def)
  have "length (map (\<lambda>l. points (heap (createLines [loc_A, loc_B] [conn_AC, conn_AB] 0 scene0) l))
        (lines (createLines [loc_A, loc_B] [conn_AC, conn_AB] 0 scene0))) = 1"
    using C3_unresolved_connections_skipped [OF scene0_ok(1,3,4), of "[loc_A, loc_B]" "[conn_AC, conn_AB]" 0]
    unfolding Let_def r by simp
  moreover have "lines (createLines [loc_A, loc_B] [conn_AC] 0 scene0) = []"
    using C3_unresolved_connections_skipped [OF scene0_ok(1,3,4), of _ _ _ loc_A "''C''" loc_B]
    by (simp add: loc_A_def loc_B_def conn_AC_def)
  ultimately show ?thesis by simp
qed

section \<open>Points near the sphere\<close>

text \<open>
  The rounding errors of the projection, one operation after the other: each coordinate is
  within \<open>12 * r / 2 ^ 52\<close> of the coordinate of the exact point, which lies on the sphere.
\<close>

lemma trig_error:
  "\<bar>Math_sin t - sin t\<bar> \<le> 1 / 2 ^ 52" "\<bar>Math_cos t - cos t\<bar> \<le> 1 / 2 ^ 52"
proof -
  have k: "(1::real) / 2 ^ 53 + 1 / 2 ^ 1075 \<le> 1 / 2 ^ 52" by simp
  have "\<bar>sin t\<bar> / 2 ^ 53 \<le> 1 / 2 ^ 53" by (rule divide_right_mono) simp_all
  with fl_error [of "sin t"] k show "\<bar>Math_sin t - sin t\<bar> \<le> 1 / 2 ^ 52"
    unfolding Math_sin_def by linarith
  have "\<bar>cos t\<bar> / 2 ^ 53 \<le> 1 / 2 ^ 53" by (rule divide_right_mono) simp_all
  with fl_error [of "cos t"] k show "\<bar>Math_cos t - cos t\<bar> \<le> 1 / 2 ^ 52"
    unfolding Math_cos_def by linarith
qed

lemma fl_error_scaled:
  assumes "\<bar>t\<bar> \<le> 4 * r" "1 / 2 ^ 500 \<le> r"
  shows "\<bar>fl t - t\<bar> \<le> 3 * (r / 2 ^ 52)"
proof -
  have "\<bar>t\<bar> / 2 ^ 53 \<le> 4 * r / 2 ^ 53" using assms(1) by (rule divide_right_mono) simp
  also have "\<dots> = 2 * (r / 2 ^ 52)" by simp
  finally have a: "\<bar>t\<bar> / 2 ^ 53 \<le> 2 * (r / 2 ^ 52)" .
  have "(1::real) / 2 ^ 1075 \<le> (1 / 2 ^ 500) / 2 ^ 52" by simp
  also have "\<dots> \<le> r / 2 ^ 52" using assms(2) by (rule divide_right_mono) simp
  finally have b: "1 / 2 ^ 1075 \<le> r / 2 ^ 52" .
  show ?thesis using fl_error [of t] a b by linarith
qed

lemma product_error:
  fixes p q P Q :: real
  assumes "\<bar>p - P\<bar> \<le> a" "\<bar>q - Q\<bar> \<le> b" "\<bar>q\<bar> \<le> m" "\<bar>P\<bar> \<le> n"
  shows "\<bar>p * q - P * Q\<bar> \<le> a * m + n * b"
proof -
  have "p * q - P * Q = (p - P) * q + P * (q - Q)" by (simp add: algebra_simps)
  then have "\<bar>p * q - P * Q\<bar> \<le> \<bar>p - P\<bar> * \<bar>q\<bar> + \<bar>P\<bar> * \<bar>q - Q\<bar>"
    by (metis abs_mult abs_triangle_ineq)
  moreover have "\<bar>p - P\<bar> * \<bar>q\<bar> \<le> a * m"
    by (rule mult_mono) (use assms in \<open>auto intro: order_trans [OF abs_ge_zero]\<close>)
  moreover have "\<bar>P\<bar> * \<bar>q - Q\<bar> \<le> n * b"
    by (rule mult_mono) (use assms in \<open>auto intro: order_trans [OF abs_ge_zero]\<close>)
  ultimately show ?thesis by linarith
qed

lemma square_error:
  fixes x X :: real
  assumes "\<bar>x - X\<bar> \<le> e" "\<bar>X\<bar> \<le> r" "e \<le> r"
  shows "\<bar>x\<^sup>2 - X\<^sup>2\<bar> \<le> 3 * r * e"
proof -
  have "\<bar>x\<bar> \<le> 2 * r" using assms by linarith
  have "x\<^sup>2 - X\<^sup>2 = (x - X) * (x + X)" by (simp add: power2_eq_square algebra_simps)
  then have "\<bar>x\<^sup>2 - X\<^sup>2\<bar> = \<bar>x - X\<bar> * \<bar>x + X\<bar>" by (simp add: abs_mult)
  also have "\<dots> \<le> e * (3 * r)"
    by (rule mult_mono) (use assms \<open>\<bar>x\<bar> \<le> 2 * r\<close> in \<open>auto intro: order_trans [OF abs_ge_zero]\<close>)
  finally show ?thesis by (simp add: mult.commute mult.left_commute)
qed

lemma sphere_identity:
  fixes r a b c s :: real
  shows "(- r * a * c)\<^sup>2 + (r * b)\<^sup>2 + (r * a * s)\<^sup>2 = r\<^sup>2 * (a\<^sup>2 * (c\<^sup>2 + s\<^sup>2) + b\<^sup>2)"
  by (simp add: power2_eq_square algebra_simps)

text \<open>
  The bound, for any sines and cosines \<open>A, B, G, H\<close> that are within \<open>1 / 2 ^ 52\<close> of the
  coordinates \<open>a, b\<close> and \<open>g, h\<close> of two points of the unit circle.
\<close>

lemma projection_norm_error:
  fixes r a b g h A B G H :: real
  assumes r: "1 / 2 ^ 500 \<le> r"
    and ea: "\<bar>A - a\<bar> \<le> 1 / 2 ^ 52" and eb: "\<bar>B - b\<bar> \<le> 1 / 2 ^ 52"
    and eg: "\<bar>G - g\<bar> \<le> 1 / 2 ^ 52" and eh: "\<bar>H - h\<bar> \<le> 1 / 2 ^ 52"
    and ab: "a\<^sup>2 + b\<^sup>2 = 1" and gh: "g\<^sup>2 + h\<^sup>2 = 1"
  shows "\<bar>euclidean_norm (Vector3 (fl (fl (- r * A) * G)) (fl (r * B)) (fl (fl (r * A) * H))) - r\<bar>
           \<le> r / 2 ^ 45"
proof -
  define d where "d = r / 2 ^ 52"
  define p1 where "p1 = fl (- r * A)"
  define p2 where "p2 = fl (r * A)"
  define x where "x = fl (p1 * G)"
  define y where "y = fl (r * B)"
  define z where "z = fl (p2 * H)"
  define X where "X = - r * a * g"
  define Y where "Y = r * b"
  define Z where "Z = r * a * h"
  have v: "Vector3 (fl (fl (- r * A) * G)) (fl (r * B)) (fl (fl (r * A) * H)) = Vector3 x y z"
    by (simp add: x_def y_def z_def p1_def p2_def)
  have unit: "\<bar>a\<bar> \<le> 1" "\<bar>b\<bar> \<le> 1" "\<bar>g\<bar> \<le> 1" "\<bar>h\<bar> \<le> 1"
  proof -
    have "a\<^sup>2 \<le> 1" "b\<^sup>2 \<le> 1" using ab zero_le_power2 [of a] zero_le_power2 [of b] by linarith+
    then show "\<bar>a\<bar> \<le> 1" "\<bar>b\<bar> \<le> 1" by (simp_all add: abs_square_le_1)
    have "g\<^sup>2 \<le> 1" "h\<^sup>2 \<le> 1" using gh zero_le_power2 [of g] zero_le_power2 [of h] by linarith+
    then show "\<bar>g\<bar> \<le> 1" "\<bar>h\<bar> \<le> 1" by (simp_all add: abs_square_le_1)
  qed
  have "(1::real) / 2 ^ 52 \<le> 1" by simp
  then have big: "\<bar>A\<bar> \<le> 2" "\<bar>B\<bar> \<le> 2" "\<bar>G\<bar> \<le> 2" "\<bar>H\<bar> \<le> 2"
    using ea eb eg eh unit by linarith+
  have "(0::real) < 1 / 2 ^ 500" by simp
  then have r0: "0 < r" using r by linarith
  have d0: "0 \<le> d" using r0 by (simp add: d_def)
  have dr: "4 * d \<le> r" unfolding d_def using r0 by (simp add: field_simps)
  have scale: "\<bar>r * u - r * w\<bar> \<le> d" if "\<bar>u - w\<bar> \<le> 1 / 2 ^ 52" for u w
  proof -
    have "\<bar>r * u - r * w\<bar> = r * \<bar>u - w\<bar>" using r0 by (simp add: abs_mult right_diff_distrib [symmetric])
    also have "\<dots> \<le> r * (1 / 2 ^ 52)" using that r0 by (intro mult_left_mono) simp_all
    finally show ?thesis by (simp add: d_def)
  qed
  have bound2: "\<bar>r * u\<bar> \<le> 4 * r" if "\<bar>u\<bar> \<le> 2" for u
  proof -
    have "\<bar>r * u\<bar> = r * \<bar>u\<bar>" using r0 by (simp add: abs_mult)
    also have "\<dots> \<le> r * 2" using that r0 by (intro mult_left_mono) simp_all
    finally show ?thesis using r0 by simp
  qed
  \<comment> \<open>the two inner products\<close>
  have p2: "\<bar>p2 - r * a\<bar> \<le> 4 * d"
  proof -
    have "\<bar>p2 - r * A\<bar> \<le> 3 * d"
      unfolding p2_def d_def by (rule fl_error_scaled [OF bound2 [OF big(1)] r])
    moreover have "\<bar>r * A - r * a\<bar> \<le> d" by (rule scale [OF ea])
    ultimately show ?thesis by linarith
  qed
  have p1: "\<bar>p1 - (- r * a)\<bar> \<le> 4 * d"
  proof -
    have "p1 = - p2" by (simp add: p1_def p2_def fl_minus)
    then show ?thesis using p2 by simp
  qed
  have rs: "\<bar>r * a\<bar> \<le> r"
    using mult_left_mono [OF unit(1), of r] r0 by (simp add: abs_mult)
  have rc: "\<bar>r * b\<bar> \<le> r"
    using mult_left_mono [OF unit(2), of r] r0 by (simp add: abs_mult)
  have p2b: "\<bar>p2\<bar> \<le> 2 * r" using p2 rs dr by linarith
  have p1b: "\<bar>p1\<bar> \<le> 2 * r" using p1 rs dr by (simp add: abs_le_iff; linarith)
  \<comment> \<open>the three coordinates\<close>
  have ex: "\<bar>x - X\<bar> \<le> 12 * d"
  proof -
    have "\<bar>p1 * G\<bar> \<le> (2 * r) * 2"
      unfolding abs_mult by (rule mult_mono [OF p1b big(3)]) (use r0 in simp_all)
    then have "\<bar>x - p1 * G\<bar> \<le> 3 * d"
      unfolding x_def d_def by (intro fl_error_scaled r) simp
    moreover have "\<bar>p1 * G - (- r * a) * g\<bar> \<le> 4 * d * 2 + r * (1 / 2 ^ 52)"
      by (rule product_error [OF p1 eg big(3)]) (use rs in simp)
    moreover have "4 * d * 2 + r * (1 / 2 ^ 52) = 9 * d" by (simp add: d_def)
    ultimately have "\<bar>x - (- r * a) * g\<bar> \<le> 12 * d" by linarith
    then show ?thesis by (simp only: X_def)
  qed
  have ez: "\<bar>z - Z\<bar> \<le> 12 * d"
  proof -
    have "\<bar>p2 * H\<bar> \<le> (2 * r) * 2"
      unfolding abs_mult by (rule mult_mono [OF p2b big(4)]) (use r0 in simp_all)
    then have "\<bar>z - p2 * H\<bar> \<le> 3 * d"
      unfolding z_def d_def by (intro fl_error_scaled r) simp
    moreover have "\<bar>p2 * H - (r * a) * h\<bar> \<le> 4 * d * 2 + r * (1 / 2 ^ 52)"
      by (rule product_error [OF p2 eh big(4) rs])
    moreover have "4 * d * 2 + r * (1 / 2 ^ 52) = 9 * d" by (simp add: d_def)
    ultimately have "\<bar>z - (r * a) * h\<bar> \<le> 12 * d" by linarith
    then show ?thesis by (simp only: Z_def)
  qed
  have ey: "\<bar>y - Y\<bar> \<le> 12 * d"
  proof -
    have "\<bar>y - r * B\<bar> \<le> 3 * d"
      unfolding y_def d_def by (rule fl_error_scaled [OF bound2 [OF big(2)] r])
    moreover have "\<bar>r * B - r * b\<bar> \<le> d" by (rule scale [OF eb])
    ultimately have "\<bar>y - r * b\<bar> \<le> 12 * d" using d0 by linarith
    then show ?thesis by (simp only: Y_def)
  qed
  \<comment> \<open>the exact point is on the sphere\<close>
  have Xb: "\<bar>X\<bar> \<le> r"
  proof -
    have "\<bar>X\<bar> = \<bar>r * a\<bar> * \<bar>g\<bar>" by (simp add: X_def abs_mult)
    also have "\<dots> \<le> r * 1" by (rule mult_mono [OF rs]) (use r0 unit in simp_all)
    finally show ?thesis by simp
  qed
  have Zb: "\<bar>Z\<bar> \<le> r"
  proof -
    have "\<bar>Z\<bar> = \<bar>r * a\<bar> * \<bar>h\<bar>" by (simp add: Z_def abs_mult)
    also have "\<dots> \<le> r * 1" by (rule mult_mono [OF rs]) (use r0 unit in simp_all)
    finally show ?thesis by simp
  qed
  have Yb: "\<bar>Y\<bar> \<le> r" using rc by (simp add: Y_def)
  have sphere: "X\<^sup>2 + Y\<^sup>2 + Z\<^sup>2 = r\<^sup>2"
    unfolding X_def Y_def Z_def
    by (simp only: sphere_identity ab gh mult_1_right)
  have d12: "12 * d \<le> r" unfolding d_def using r0 by (simp add: field_simps)
  have "\<bar>x\<^sup>2 - X\<^sup>2\<bar> \<le> 3 * r * (12 * d)" "\<bar>y\<^sup>2 - Y\<^sup>2\<bar> \<le> 3 * r * (12 * d)"
    "\<bar>z\<^sup>2 - Z\<^sup>2\<bar> \<le> 3 * r * (12 * d)"
    by (rule square_error [OF ex Xb d12], rule square_error [OF ey Yb d12],
        rule square_error [OF ez Zb d12])
  then have sq: "\<bar>(x\<^sup>2 + y\<^sup>2 + z\<^sup>2) - r\<^sup>2\<bar> \<le> 108 * (r * d)"
    using sphere by linarith
  define N where "N = sqrt (x\<^sup>2 + y\<^sup>2 + z\<^sup>2)"
  have N0: "0 \<le> N" by (simp add: N_def)
  have N2: "N\<^sup>2 = x\<^sup>2 + y\<^sup>2 + z\<^sup>2" by (simp add: N_def)
  have "\<bar>N - r\<bar> * r \<le> \<bar>N - r\<bar> * (N + r)"
    by (rule mult_left_mono) (use N0 in simp_all)
  also have "\<dots> = \<bar>N\<^sup>2 - r\<^sup>2\<bar>"
  proof -
    have "N\<^sup>2 - r\<^sup>2 = (N - r) * (N + r)" by (simp add: power2_eq_square algebra_simps)
    moreover have "\<bar>N + r\<bar> = N + r" using N0 r0 by simp
    ultimately show ?thesis by (simp only: abs_mult)
  qed
  also have "\<dots> \<le> 108 * (r * d)" using sq by (simp add: N2)
  finally have "\<bar>N - r\<bar> * r \<le> (108 * d) * r" by (simp add: mult.commute mult.left_commute)
  then have "\<bar>N - r\<bar> \<le> 108 * d" using r0 by (simp only: mult_le_cancel_right)
  also have "\<dots> \<le> r / 2 ^ 45" unfolding d_def using r0 by (simp add: field_simps)
  finally have "\<bar>N - r\<bar> \<le> r / 2 ^ 45" .
  then show ?thesis unfolding v by (simp add: euclidean_norm_def N_def)
qed

lemma latLng_norm_error:
  assumes "1 / 2 ^ 500 \<le> r" "r \<le> 2 ^ 500"
  shows "\<bar>euclidean_norm (latLngToVector3 la lo r) - r\<bar> \<le> r / 2 ^ 45"
  unfolding latLngToVector3_def Let_def
  by (rule projection_norm_error [OF assms(1) trig_error(1) trig_error(2) trig_error(2)
        trig_error(1)]) simp_all

lemma fl_092: "1 / 2 \<le> fl 0.92" "fl 0.92 \<le> 1"
  using fl_within_binade [of "- 1" "0.92"] by (simp_all add: power_int_minus_divide)

lemma latLng_near_sphere:
  "\<bar>euclidean_norm (latLngToVector3 la lo (fl 0.92)) - fl 0.92\<bar> \<le> fl 0.92 / 2 ^ 45"
proof (rule latLng_norm_error)
  have "(1::real) / 2 ^ 500 \<le> 1 / 2" "(1::real) \<le> 2 ^ 500" by simp_all
  then show "1 / 2 ^ 500 \<le> fl 0.92" "fl 0.92 \<le> 2 ^ 500" using fl_092 by linarith+
qed

lemma latLng_doubles:
  "fl (vx (latLngToVector3 la lo r)) = vx (latLngToVector3 la lo r)"
  "fl (vy (latLngToVector3 la lo r)) = vy (latLngToVector3 la lo r)"
  "fl (vz (latLngToVector3 la lo r)) = vz (latLngToVector3 la lo r)"
  by (simp_all add: latLngToVector3_def Let_def)

lemma QuadraticBezier_ends:
  "fl p0 = p0 \<Longrightarrow> QuadraticBezier 0 p0 p1 p2 = p0"
  "fl p2 = p2 \<Longrightarrow> QuadraticBezier 1 p0 p1 p2 = p2"
  by (simp_all add: QuadraticBezier_def QuadraticBezierP0_def QuadraticBezierP1_def
      QuadraticBezierP2_def)

lemma getPoint_ends:
  "fl (vx v0) = vx v0 \<Longrightarrow> fl (vy v0) = vy v0 \<Longrightarrow> fl (vz v0) = vz v0 \<Longrightarrow>
   getPoint v0 v1 v2 0 = v0"
  "fl (vx v2) = vx v2 \<Longrightarrow> fl (vy v2) = vy v2 \<Longrightarrow> fl (vz v2) = vz v2 \<Longrightarrow>
   getPoint v0 v1 v2 1 = v2"
  by (simp_all add: getPoint_def QuadraticBezier_ends)

lemma hd_getPoints:
  assumes "fl (vx v0) = vx v0" "fl (vy v0) = vy v0" "fl (vz v0) = vz v0"
  shows "hd (getPoints v0 v1 v2 (Suc n)) = v0"
  by (simp add: getPoints_def getPoint_ends(1) [OF assms] upt_rec [of 0] del: upt_Suc)

lemma last_getPoints:
  assumes "fl (vx v2) = vx v2" "fl (vy v2) = vy v2" "fl (vz v2) = vz v2"
  shows "last (getPoints v0 v1 v2 (Suc n)) = v2"
proof -
  have "fl (real (Suc n) / real (Suc n)) = 1" by simp
  then have "getPoint v0 v1 v2 (fl (real (Suc n) / real (Suc n))) = v2"
    by (simp only: getPoint_ends(2) [OF assms])
  then show ?thesis by (simp add: getPoints_def)
qed

lemma curve_points_ends:
  assumes "fl (vx s) = vx s" "fl (vy s) = vy s" "fl (vz s) = vz s"
    and "fl (vx e) = vx e" "fl (vy e) = vy e" "fl (vz e) = vz e"
  shows "hd (curve_points s e) = s" and "last (curve_points s e) = e"
proof -
  have 50: "(50::nat) = Suc 49" by simp
  show "hd (curve_points s e) = s"
    unfolding curve_points_def Let_def 50 by (rule hd_getPoints [OF assms(1-3)])
  show "last (curve_points s e) = e"
    unfolding curve_points_def Let_def 50 by (rule last_getPoints [OF assms(4-6)])
qed

text \<open>
  C10, as stated, fails: the point computed for \<open>lat = 0, lng = 0\<close> and the radius \<open>1\<close> has
  the first coordinate \<open>1\<close> and two more that are not zero, so its Euclidean norm is more
  than \<open>1\<close>.  And for the radius \<open>1 / 2 ^ 600\<close>, a double, the length that
  \<open>Vector3.length\<close> computes for the point is \<open>0\<close>: the squares underflow.
\<close>

theorem C10_counterexample:
  "1 < euclidean_norm (latLngToVector3 0 0 1) \<and>
   is_double (1 / 2 ^ 600) \<and> vlength (latLngToVector3 0 0 (1 / 2 ^ 600)) = 0"
proof -
  have v: "latLngToVector3 0 0 1 = Vector3 1 (Math_cos (Math_PI / 2)) (Math_sin Math_PI)"
    using latLng_equator [OF is_double_1] by simp
  have "(0::real) < 1 / 2 ^ 54" by simp
  then have "0 < Math_cos (Math_PI / 2)" using Math_cos_half_PI(1) by linarith
  then have "0 < (Math_cos (Math_PI / 2))\<^sup>2" by simp
  moreover have "0 \<le> (Math_sin Math_PI)\<^sup>2" by simp
  ultimately have "1 < 1 + (Math_cos (Math_PI / 2))\<^sup>2 + (Math_sin Math_PI)\<^sup>2" by linarith
  then have 1: "1 < euclidean_norm (latLngToVector3 0 0 1)"
    by (simp add: v euclidean_norm_def)
  define R :: real where "R = 1 / 2 ^ 600"
  have "fl (of_int 1 * 2 powi (- 600)) = of_int 1 * 2 powi (- 600)"
    by (rule fl_representable) simp_all
  then have "fl R = R" by (simp add: R_def power_int_minus_divide)
  then have d: "is_double R" by (simp add: is_double_def R_def)
  define y where "y = fl (R * Math_cos (Math_PI / 2))"
  define z where "z = fl (R * Math_sin Math_PI)"
  have w: "latLngToVector3 0 0 R = Vector3 R y z"
    unfolding y_def z_def by (rule latLng_equator [OF d])
  have sq: "fl (u * u) = 0" if "\<bar>u\<bar> \<le> R" for u
  proof (rule fl_tiny)
    have "\<bar>u\<bar> * \<bar>u\<bar> \<le> R * R" by (rule mult_mono [OF that that]) (simp_all add: R_def)
    also have "\<dots> \<le> 1 / 2 ^ 1076" by (simp add: R_def)
    finally show "\<bar>u * u\<bar> \<le> 1 / 2 ^ 1076" by (simp add: abs_mult)
  qed
  have "\<bar>R\<bar> / 2 ^ 52 + 1 / 2 ^ 1075 \<le> R" "\<bar>R\<bar> / 2 ^ 51 + 1 / 2 ^ 1075 \<le> R"
    by (simp_all add: R_def)
  then have "\<bar>y\<bar> \<le> R" "\<bar>z\<bar> \<le> R"
    using equator_small [of R] unfolding y_def z_def by linarith+
  then have "fl (y * y) = 0" "fl (z * z) = 0" by (simp_all only: sq)
  moreover have "fl (R * R) = 0" by (rule sq) (simp add: R_def)
  ultimately have "vlength (latLngToVector3 0 0 R) = 0"
    by (simp add: w vlength_def Math_sqrt_def)
  then show ?thesis using 1 d unfolding R_def by blast
qed

text \<open>
  C10, amended.  For a radius \<open>r\<close> between \<open>2 powi - 500\<close> and \<open>2 powi 500\<close> the Euclidean
  norm of the projected point differs from \<open>r\<close> by at most \<open>r / 2 ^ 45\<close>, whatever the
  latitude and the longitude.  Hence after a marker rebuild every marker's position is
  within \<open>0.92 / 2 ^ 45\<close> of the sphere of radius \<open>0.92\<close> (the double of that name), and so
  are the two end points of the curve of every connection that resolves, which are the
  first and the last of the points sampled on the curve.
\<close>

theorem C10_projection_near_sphere:
  "(1 / 2 ^ 500 \<le> r \<and> r \<le> 2 ^ 500 \<longrightarrow>
      \<bar>euclidean_norm (latLngToVector3 la lo r) - r\<bar> \<le> r / 2 ^ 45) \<and>
   (store_ok st \<and> markers_ok st \<and> scene st = Some sc \<and> find_group st sc = Some g \<longrightarrow>
      (\<exists>st'. createMarkers locs st = Inr st' \<and>
         (\<forall>m\<in>set (markers st').
            \<bar>euclidean_norm (position (heap st' m)) - fl 0.92\<bar> \<le> fl 0.92 / 2 ^ 45))) \<and>
   (resolves locs c \<longrightarrow>
      \<bar>euclidean_norm (arc_start locs c) - fl 0.92\<bar> \<le> fl 0.92 / 2 ^ 45 \<and>
      \<bar>euclidean_norm (arc_end locs c) - fl 0.92\<bar> \<le> fl 0.92 / 2 ^ 45 \<and>
      hd (curve_points (arc_start locs c) (arc_end locs c)) = arc_start locs c \<and>
      last (curve_points (arc_start locs c) (arc_end locs c)) = arc_end locs c)"
proof (intro conjI impI)
  show "\<bar>euclidean_norm (latLngToVector3 la lo r) - r\<bar> \<le> r / 2 ^ 45"
    if "1 / 2 ^ 500 \<le> r \<and> r \<le> 2 ^ 500"
    using that by (intro latLng_norm_error) simp_all
next
  assume a: "store_ok st \<and> markers_ok st \<and> scene st = Some sc \<and> find_group st sc = Some g"
  then have ok: "store_ok st" "markers_ok st" "scene st = Some sc" "find_group st sc = Some g"
    by simp_all
  note ga = group_allocated [OF ok(1,3,4)]
  have "\<forall>m\<in>set (markers (rebuilt g locs st)).
      \<bar>euclidean_norm (position (heap (rebuilt g locs st) m)) - fl 0.92\<bar> \<le> fl 0.92 / 2 ^ 45"
  proof
    fix m assume "m \<in> set (markers (rebuilt g locs st))"
    from rebuilt_marker_at [OF ga(1) this] obtain k where
      "heap (rebuilt g locs st) m = marker_object g m (locs ! k)" by blast
    then have "position (heap (rebuilt g locs st) m)
        = latLngToVector3 (lat (locs ! k)) (lng (locs ! k)) (fl 0.92)"
      by (simp add: marker_object_def)
    then show "\<bar>euclidean_norm (position (heap (rebuilt g locs st) m)) - fl 0.92\<bar>
        \<le> fl 0.92 / 2 ^ 45"
      by (simp only: latLng_near_sphere)
  qed
  then show "\<exists>st'. createMarkers locs st = Inr st' \<and>
         (\<forall>m\<in>set (markers st').
            \<bar>euclidean_norm (position (heap st' m)) - fl 0.92\<bar> \<le> fl 0.92 / 2 ^ 45)"
    using createMarkers_result [OF ok, of locs] by blast
next
  assume r: "resolves locs c"
  then obtain a b where "List.find (\<lambda>loc. name loc = conn_from c) locs = Some a"
    and "List.find (\<lambda>loc. name loc = conn_to c) locs = Some b"
    by (auto simp: resolves_def)
  then have s: "arc_start locs c = latLngToVector3 (lat a) (lng a) (fl 0.92)"
    and e: "arc_end locs c = latLngToVector3 (lat b) (lng b) (fl 0.92)"
    by (simp_all add: arc_start_def arc_end_def)
  show "\<bar>euclidean_norm (arc_start locs c) - fl 0.92\<bar> \<le> fl 0.92 / 2 ^ 45"
    "\<bar>euclidean_norm (arc_end locs c) - fl 0.92\<bar> \<le> fl 0.92 / 2 ^ 45"
    unfolding s e by (rule latLng_near_sphere)+
  show "hd (curve_points (arc_start locs c) (arc_end locs c)) = arc_start locs c"
    "last (curve_points (arc_start locs c) (arc_end locs c)) = arc_end locs c"
    unfolding s e by (rule curve_points_ends; rule latLng_doubles)+
qed

theorem C10_projection_near_sphere_witness:
  "\<bar>euclidean_norm (latLngToVector3 200 (- 500) (fl 0.92)) - fl 0.92\<bar> \<le> fl 0.92 / 2 ^ 45 \<and>
   (\<exists>st'. createMarkers [loc_A, loc_B] scene0 = Inr st' \<and>
      list_all (\<lambda>m. \<bar>euclidean_norm (position (heap st' m)) - fl 0.92\<bar> \<le> fl 0.92 / 2 ^ 45)
        (markers st')) \<and>
   hd (curve_points (arc_start [loc_A, loc_B] conn_AB) (arc_end [loc_A, loc_B] conn_AB))
     = arc_start [loc_A, loc_B] conn_AB"
proof -
  have "(1::real) / 2 ^ 500 \<le> 1 / 2" "(1::real) \<le> 2 ^ 500" by simp_all
  then have r: "1 / 2 ^ 500 \<le> fl 0.92 \<and> fl 0.92 \<le> 2 ^ 500" using fl_092 by linarith
  have c: "resolves [loc_A, loc_B] conn_AB"
    by (simp add: resolves_def loc_A_def loc_B_def conn_AB_def)
  show ?thesis
    using C10_projection_near_sphere [of "fl 0.92" 200 "- 500" scene0 0 1 "[loc_A, loc_B]" conn_AB]
      r c scene0_ok
    by (simp add: list_all_iff)
qed

section \<open>Camera framing\<close>

lemma fl_274: "2 \<le> fl 2.74" "fl 2.74 \<le> 4"
  using fl_within_binade [of 1 "2.74"] by simp_all

lemma fl_small_positive:
  assumes "1 / 2 ^ 54 \<le> c" "c \<le> 1 / 2 ^ 52"
  shows "0 < fl (c * fl 2.74)" and "fl (c * fl 2.74) \<le> 1 / 2 ^ 49"
proof -
  define t where "t = c * fl 2.74"
  define a :: real where "a = 1 / 2 ^ 53"
  define h :: real where "h = 1 / 2 ^ 1075"
  define b :: real where "b = 1 / 2 ^ 49"
  have c0: "0 \<le> c" using assms(1) by (rule order_trans [rotated]) simp
  have "(1 / 2 ^ 54) * 2 \<le> c * fl 2.74"
    by (rule mult_mono [OF assms(1) fl_274(1)]) (use c0 in simp_all)
  then have lo: "a \<le> t" by (simp add: a_def t_def)
  have "c * fl 2.74 \<le> (1 / 2 ^ 52) * 4"
    by (rule mult_mono [OF assms(2) fl_274(2)]) (use fl_274(1) in simp_all)
  then have hi: "t \<le> b / 2" by (simp add: b_def t_def)
  have a0: "0 < a" by (simp add: a_def)
  have t0: "0 \<le> t" using lo a0 by linarith
  have "\<bar>fl t - t\<bar> \<le> \<bar>t\<bar> / 2 ^ 53 + 1 / 2 ^ 1075" by (rule fl_error)
  then have e: "\<bar>fl t - t\<bar> \<le> t / 2 ^ 53 + h" using t0 by (simp add: h_def)
  have "t / 2 ^ 53 \<le> t / 2" using t0 by (simp add: field_simps)
  moreover have "h < a / 2" by (simp add: h_def a_def)
  ultimately have "0 < fl t" using e lo by linarith
  then show "0 < fl (c * fl 2.74)" by (simp only: t_def)
  have "t / 2 ^ 53 \<le> t / 2" using t0 by (simp add: field_simps)
  moreover have "h \<le> b / 4" by (simp add: h_def b_def)
  ultimately have "fl t \<le> b" using e hi t0 by linarith
  then show "fl (c * fl 2.74) \<le> 1 / 2 ^ 49" by (simp only: t_def b_def)
qed

text \<open>
  C9, as stated, fails: with the controller constructed and the single location at
  \<open>lat = 0, lng = 0\<close>, the camera is not put at \<open>(2.74, 0, 0)\<close>; its second and third
  coordinates are positive.
\<close>

theorem C9_counterexample:
  "map_option cam_position
     (camera (focusOnMarkers (\<lambda>s. s) [loc_A] (scene0\<lparr>controls := Some controls0\<rparr>)))
     = Some (Vector3 (fl 2.74) (fl (Math_cos (Math_PI / 2) * fl 2.74))
               (fl (Math_sin Math_PI * fl 2.74))) \<and>
   Vector3 (fl 2.74) (fl (Math_cos (Math_PI / 2) * fl 2.74)) (fl (Math_sin Math_PI * fl 2.74))
     \<noteq> Vector3 (fl 2.74) 0 0 \<and>
   0 < fl (Math_cos (Math_PI / 2) * fl 2.74) \<and> 0 < fl (Math_sin Math_PI * fl 2.74)"
proof -
  have c: "1 / 2 ^ 54 \<le> Math_cos (Math_PI / 2)" "Math_cos (Math_PI / 2) \<le> 1 / 2 ^ 52"
    and s: "1 / 2 ^ 54 \<le> Math_sin Math_PI" "Math_sin Math_PI \<le> 1 / 2 ^ 52"
    using Math_cos_half_PI Math_sin_PI by (simp_all; linarith)+
  have p: "0 < fl (Math_cos (Math_PI / 2) * fl 2.74)" "0 < fl (Math_sin Math_PI * fl 2.74)"
    using fl_small_positive(1) [OF c] fl_small_positive(1) [OF s] by simp_all
  have "map_option cam_position
     (camera (focusOnMarkers (\<lambda>s. s) [loc_A] (scene0\<lparr>controls := Some controls0\<rparr>)))
     = Some (Vector3 (fl 2.74) (fl (Math_cos (Math_PI / 2) * fl 2.74))
               (fl (Math_sin Math_PI * fl 2.74)))"
    by (simp add: focusOnMarkers_def Let_def loc_A_def scene0_def phi_equator theta_zero
        multiplyScalar_def divideScalar_def addVectors_def Math_sin_half_PI Math_cos_PI)
  then show ?thesis using p by simp
qed

text \<open>
  C9, amended.  With the controller (and so the camera) constructed and a single location
  at \<open>lat = 0, lng = 0\<close>, \<open>focusOnMarkers\<close> puts the camera at the unit direction times
  \<open>2.74\<close>, with no normalisation: the first coordinate is exactly the double \<open>2.74\<close>, the
  second and the third are \<open>2.74\<close> times \<open>Math.cos(Math.PI / 2)\<close> and \<open>Math.sin(Math.PI)\<close>,
  rounded: positive, and at most \<open>1 / 2 ^ 49\<close>.  It aims the camera at the origin, sets the
  controller's target to the origin, and then applies the controller's update.  With no
  location, or with no controller, it changes nothing.
\<close>

theorem C9_focus_on_single_marker:
  "(lat loc = 0 \<and> lng loc = 0 \<and> controls st = Some c \<and> camera st = Some cam \<longrightarrow>
      focusOnMarkers orbit_update [loc] st =
        orbit_update
          (st\<lparr>camera := Some (cam\<lparr>cam_position :=
                                     Vector3 (fl 2.74) (fl (Math_cos (Math_PI / 2) * fl 2.74))
                                       (fl (Math_sin Math_PI * fl 2.74)),
                                    cam_lookAt := Some (Vector3 0 0 0)\<rparr>),
              controls := Some (c\<lparr>target := Vector3 0 0 0\<rparr>)\<rparr>)) \<and>
   0 < fl (Math_cos (Math_PI / 2) * fl 2.74) \<and> fl (Math_cos (Math_PI / 2) * fl 2.74) \<le> 1 / 2 ^ 49 \<and>
   0 < fl (Math_sin Math_PI * fl 2.74) \<and> fl (Math_sin Math_PI * fl 2.74) \<le> 1 / 2 ^ 49 \<and>
   focusOnMarkers orbit_update [] st = st \<and>
   (controls st = None \<longrightarrow> focusOnMarkers orbit_update locs st = st)"
proof -
  have c: "1 / 2 ^ 54 \<le> Math_cos (Math_PI / 2)" "Math_cos (Math_PI / 2) \<le> 1 / 2 ^ 52"
    and s: "1 / 2 ^ 54 \<le> Math_sin Math_PI" "Math_sin Math_PI \<le> 1 / 2 ^ 52"
    using Math_cos_half_PI Math_sin_PI by (simp_all; linarith)+
  show ?thesis
    using fl_small_positive [OF c] fl_small_positive [OF s]
    by (simp add: focusOnMarkers_def Let_def phi_equator theta_zero
        multiplyScalar_def divideScalar_def addVectors_def Math_sin_half_PI Math_cos_PI)
qed

theorem C9_focus_on_single_marker_witness:
  "camera (focusOnMarkers (\<lambda>s. s) [loc_A] (scene0\<lparr>controls := Some controls0\<rparr>))
     = Some \<lparr>cam_position = Vector3 (fl 2.74) (fl (Math_cos (Math_PI / 2) * fl 2.74))
                               (fl (Math_sin Math_PI * fl 2.74)),
             cam_lookAt = Some (Vector3 0 0 0), aspect = fl (800 / 600)\<rparr> \<and>
   controls (focusOnMarkers (\<lambda>s. s) [loc_A] (scene0\<lparr>controls := Some controls0\<rparr>))
     = Some (controls0\<lparr>target := Vector3 0 0 0\<rparr>) \<and>
   focusOnMarkers (\<lambda>s. s) [loc_A] scene0 = scene0"
proof -
  let ?st = "scene0\<lparr>controls := Some controls0\<rparr>"
  let ?cam = "\<lparr>cam_position = Vector3 0 0 2.5, cam_lookAt = None, aspect = fl (800 / 600)\<rparr>"
  have h: "lat loc_A = 0 \<and> lng loc_A = 0 \<and> controls ?st = Some controls0 \<and> camera ?st = Some ?cam"
    by (simp add: loc_A_def scene0_def)
  have n: "controls scene0 = None" by (simp add: scene0_def)
  show ?thesis
    using C9_focus_on_single_marker [of loc_A ?st controls0 ?cam "\<lambda>s. s" "[loc_A]"] h
      C9_focus_on_single_marker [of loc_A scene0 controls0 ?cam "\<lambda>s. s" "[loc_A]"] n
    by simp
qed

section \<open>Scene host: initialization order\<close>

lemma camera_only_fields:
  assumes "camera_only u"
  shows "heap (u s) = heap s" "next_id (u s) = next_id s" "scene (u s) = scene s"
    "init_pc (u s) = init_pc s" "containerRef (u s) = containerRef s"
    "globeGroup (u s) = globeGroup s" "raf_queue (u s) = raf_queue s"
proof -
  have e: "u s = s\<lparr>camera := camera (u s), controls := controls (u s)\<rparr>"
    using assms by (simp add: camera_only_def)
  show "heap (u s) = heap s" using arg_cong [OF e, of heap] by simp
  show "next_id (u s) = next_id s" using arg_cong [OF e, of next_id] by simp
  show "scene (u s) = scene s" using arg_cong [OF e, of scene] by simp
  show "init_pc (u s) = init_pc s" using arg_cong [OF e, of init_pc] by simp
  show "containerRef (u s) = containerRef s" using arg_cong [OF e, of containerRef] by simp
  show "globeGroup (u s) = globeGroup s" using arg_cong [OF e, of globeGroup] by simp
  show "raf_queue (u s) = raf_queue s" using arg_cong [OF e, of raf_queue] by simp
qed

lemma store_ok_camera_only: "camera_only u \<Longrightarrow> store_ok (u s) = store_ok s"
  by (simp add: store_ok_def camera_only_fields cong: option.case_cong)

lemma has_group_camera_only: "camera_only u \<Longrightarrow> has_group (u s) = has_group s"
  by (simp add: has_group_def find_group_def camera_only_fields cong: option.case_cong)

lemma find_append_Some: "List.find P xs = Some x \<Longrightarrow> List.find P (xs @ ys) = Some x"
  by (induction xs) (auto split: if_splits)

lemma find_append_not_None: "List.find P xs \<noteq> None \<Longrightarrow> List.find P (xs @ ys) \<noteq> None"
  by (auto simp: find_None_iff)

lemma find_append:
  "List.find P (xs @ ys) = (case List.find P xs of None \<Rightarrow> List.find P ys | Some x \<Rightarrow> Some x)"
  by (induction xs) simp_all

lemma find_group_frame:
  assumes "children (heap st' sc) = children (heap st sc) @ extra"
    and "\<And>c. c \<in> set (children (heap st sc)) \<Longrightarrow> kind (heap st' c) = kind (heap st c)"
    and "\<And>c. c \<in> set extra \<Longrightarrow> kind (heap st' c) \<noteq> Group"
  shows "find_group st' sc = find_group st sc"
proof -
  have 1: "List.find (\<lambda>c. kind (heap st' c) = Group) (children (heap st sc))
      = List.find (\<lambda>c. kind (heap st c) = Group) (children (heap st sc))"
    by (rule find_cong [OF refl]) (simp add: assms(2))
  have 2: "List.find (\<lambda>c. kind (heap st' c) = Group) extra = None"
    using assms(3) by (simp add: find_None_iff)
  have 3: "List.find P (xs @ ys) = (case List.find P xs of None \<Rightarrow> List.find P ys | Some x \<Rightarrow> Some x)"
    for P :: "nat \<Rightarrow> bool" and xs ys
    by (induction xs) simp_all
  show ?thesis
    unfolding find_group_def assms(1) 3 1 2 by (simp split: option.splits)
qed

lemma has_groupD:
  assumes "store_ok st" "has_group st"
  obtains sc g where "scene st = Some sc" "find_group st sc = Some g" "globeGroup st = Some g"
    "sc < next_id st" "g < next_id st" "g \<noteq> sc"
proof -
  from assms(2) obtain sc g where sc: "scene st = Some sc" and fg: "find_group st sc = Some g"
    and gg: "globeGroup st = Some g"
    by (auto simp: has_group_def split: option.splits)
  note ga = group_allocated [OF assms(1) sc fg]
  show ?thesis using that [OF sc fg gg ga(2,1)] ga(3) by blast
qed

lemma has_groupI:
  "scene st = Some sc \<Longrightarrow> find_group st sc = Some g \<Longrightarrow> globeGroup st = Some g \<Longrightarrow> has_group st"
  by (simp add: has_group_def)

lemma store_ok_alloc:
  assumes "store_ok st" "children obj = []"
  shows "store_ok (snd (alloc obj st))"
  using assms by (auto simp: store_ok_def alloc_def less_Suc_eq split: option.splits)

lemma store_ok_add:
  assumes "store_ok st" "c < next_id st" "parent (heap st c) = None"
  shows "store_ok (st\<lparr>heap := add p c (heap st)\<rparr>)"
  using assms by (auto simp: store_ok_def add_def Let_def split: option.splits)

lemma find_group_alloc:
  assumes "store_ok st" "scene st = Some sc"
  shows "find_group (snd (alloc obj st)) sc = find_group st sc"
proof (rule find_group_frame [where extra="[]"])
  have sc: "sc < next_id st" using assms by (simp add: store_ok_def)
  show "children (heap (snd (alloc obj st)) sc) = children (heap st sc) @ []"
    using sc by (simp add: alloc_def)
  fix c assume "c \<in> set (children (heap st sc))"
  then have "c < next_id st" using assms(1) sc by (auto simp: store_ok_def)
  then show "kind (heap (snd (alloc obj st)) c) = kind (heap st c)" by (simp add: alloc_def)
qed simp

lemma has_group_alloc:
  assumes "store_ok st" "has_group st"
  shows "has_group (snd (alloc obj st))"
proof -
  from assms obtain sc g where *: "scene st = Some sc" "find_group st sc = Some g"
    "globeGroup st = Some g"
    by (rule has_groupD)
  show ?thesis
    by (rule has_groupI [of _ sc g])
       (use * find_group_alloc [OF assms(1) *(1)] in \<open>simp_all add: alloc_def\<close>)
qed

lemma find_group_add:
  assumes "parent (heap st c) = None" "kind (heap st c) \<noteq> Group"
  shows "find_group (st\<lparr>heap := add p c (heap st)\<rparr>) sc = find_group st sc"
proof (rule find_group_frame [where extra="if p = sc \<and> c \<noteq> p then [c] else []"])
  show "children (heap (st\<lparr>heap := add p c (heap st)\<rparr>) sc)
      = children (heap st sc) @ (if p = sc \<and> c \<noteq> p then [c] else [])"
    using assms(1) by (simp add: add_def Let_def)
  show "kind (heap (st\<lparr>heap := add p c (heap st)\<rparr>) x) = kind (heap st x)" for x
    using assms(1) by (simp add: add_def Let_def)
  show "kind (heap (st\<lparr>heap := add p c (heap st)\<rparr>) x) \<noteq> Group"
    if "x \<in> set (if p = sc \<and> c \<noteq> p then [c] else [])" for x
    using that assms by (auto simp: add_def Let_def split: if_splits)
qed

lemma has_group_add:
  assumes "store_ok st" "has_group st" "parent (heap st c) = None" "kind (heap st c) \<noteq> Group"
  shows "has_group (st\<lparr>heap := add p c (heap st)\<rparr>)"
proof -
  from assms(1,2) obtain sc g where *: "scene st = Some sc" "find_group st sc = Some g"
    "globeGroup st = Some g"
    by (rule has_groupD)
  show ?thesis
    by (rule has_groupI [of _ sc g]) (use * find_group_add [OF assms(3,4)] in simp_all)
qed

lemma alloc_add_inv:
  assumes "store_ok st" "children obj = []" "parent obj = None" "kind obj \<noteq> Group"
  shows "store_ok (alloc_add p obj st)" "has_group st \<Longrightarrow> has_group (alloc_add p obj st)"
    "scene (alloc_add p obj st) = scene st" "next_id (alloc_add p obj st) = Suc (next_id st)"
proof -
  let ?st1 = "snd (alloc obj st)"
  have ok1: "store_ok ?st1" by (rule store_ok_alloc [OF assms(1,2)])
  have new: "next_id st < next_id ?st1" "parent (heap ?st1 (next_id st)) = None"
    "kind (heap ?st1 (next_id st)) \<noteq> Group"
    using assms(3,4) by (simp_all add: alloc_def)
  show "store_ok (alloc_add p obj st)"
    unfolding alloc_add_def by (rule store_ok_add [OF ok1 new(1,2)])
  show "has_group (alloc_add p obj st)" if "has_group st"
    unfolding alloc_add_def
    by (rule has_group_add [OF ok1 has_group_alloc [OF assms(1) that] new(2,3)])
  show "scene (alloc_add p obj st) = scene st" "next_id (alloc_add p obj st) = Suc (next_id st)"
    by (simp_all add: alloc_add_def alloc_def)
qed

lemma init_inv_initial: "init_inv (initial container)"
  by (simp add: init_inv_def initial_def store_ok_def)

lemma host_animate_heap:
  assumes "camera_only u"
  shows "heap (host_animate u st) = heap st" "next_id (host_animate u st) = next_id st"
    "scene (host_animate u st) = scene st" "globeGroup (host_animate u st) = globeGroup st"
  by (simp_all add: host_animate_def requestAnimationFrame_def Let_def camera_only_fields [OF assms])

lemma init_inv_step:
  assumes "camera_only u" "init_inv st"
  shows "init_inv (init_step u st)"
proof (cases "init_pc st")
  case NotStarted
  then show ?thesis using assms(2) by (auto simp: init_inv_def init_step_def store_ok_def)
next
  case CreateScene
  then show ?thesis using assms(2)
    by (auto simp: init_inv_def init_step_def store_ok_def empty_scene_def alloc_def
        new_object_def less_Suc_eq)
next
  case CreateCamera
  then show ?thesis using assms(2)
    by (auto simp: init_inv_def init_step_def store_ok_def empty_scene_def split: option.splits)
next
  case CreateRenderer
  then show ?thesis using assms(2)
    by (auto simp: init_inv_def init_step_def store_ok_def empty_scene_def split: option.splits)
next
  case CreateGroup
  then show ?thesis using assms(2)
    by (auto simp: init_inv_def init_step_def store_ok_def empty_scene_def alloc_def
        new_object_def less_Suc_eq split: option.splits)
next
  case AddGroup
  then show ?thesis using assms(2)
    apply (auto simp: init_inv_def init_step_def store_ok_def has_group_def empty_scene_def find_group_def
        add_def Let_def find_None_iff split: option.splits)
    done
next
  case AwaitTexture
  then show ?thesis using assms(2)
    by (auto simp: init_inv_def init_step_def store_ok_def has_group_def empty_scene_def find_group_def split: option.splits)
next
  case CreateSphere
  show ?thesis
  proof (cases "globeGroup st")
    case None
    then show ?thesis using CreateSphere assms(2)
      by (auto simp: init_inv_def init_step_def store_ok_def has_group_def empty_scene_def find_group_def
          cong: option.case_cong)
  next
    case (Some g)
    let ?st1 = "alloc_add g (new_object Mesh) st"
    have ok: "store_ok st" using assms(2) by (simp add: init_inv_def)
    note a = alloc_add_inv [OF ok, of "new_object Mesh" g]
    have e: "init_step u st = ?st1\<lparr>sphere := Some (next_id st), init_pc := AddLights\<rparr>"
      using CreateSphere Some by (simp add: init_step_def alloc_def alloc_add_def)
    show ?thesis
      unfolding e using a assms(2) CreateSphere
      by (auto simp: init_inv_def store_ok_def has_group_def find_group_def new_object_def
          cong: option.case_cong)
  qed
next
  case AddLights
  show ?thesis
  proof (cases "scene st")
    case None
    then show ?thesis using AddLights assms(2)
      by (auto simp: init_inv_def init_step_def store_ok_def)
  next
    case (Some sc)
    let ?a = "(new_object AmbientLight)\<lparr>color := ''#ffffff''\<rparr>"
    let ?p = "(new_object PointLight)\<lparr>color := ''#ffffff'', position := Vector3 5 3 5\<rparr>"
    let ?st1 = "alloc_add sc ?a st"
    let ?st2 = "alloc_add sc ?p ?st1"
    have ok: "store_ok st" using assms(2) by (simp add: init_inv_def)
    note a = alloc_add_inv [OF ok, of ?a sc]
    have ok1: "store_ok ?st1" by (rule a(1)) (simp_all add: new_object_def)
    note b = alloc_add_inv [OF ok1, of ?p sc]
    have hg: "has_group st" using assms(2) AddLights Some by (simp add: init_inv_def)
    have e: "init_step u st = ?st2\<lparr>init_pc := CreateControls\<rparr>"
      using AddLights Some by (simp add: init_step_def alloc_def alloc_add_def Let_def)
    have "store_ok ?st2" "has_group ?st2"
      using a b hg by (simp_all add: new_object_def)
    then show ?thesis
      unfolding e
      by (auto simp: init_inv_def store_ok_def has_group_def find_group_def cong: option.case_cong)
  qed
next
  case CreateControls
  then show ?thesis using assms(2)
    by (auto simp: init_inv_def init_step_def store_ok_def has_group_def empty_scene_def find_group_def split: option.splits)
next
  case ForceRender
  then show ?thesis using assms(2)
    by (auto simp: init_inv_def init_step_def store_ok_def has_group_def empty_scene_def find_group_def split: option.splits)
next
  case ScheduleFocus
  then show ?thesis using assms(2)
    by (auto simp: init_inv_def init_step_def store_ok_def has_group_def empty_scene_def find_group_def split: option.splits)
next
  case StartAnimate
  then show ?thesis using assms(2)
    by (auto simp: init_inv_def init_step_def store_ok_def has_group_def empty_scene_def find_group_def
        host_animate_heap [OF assms(1)] split: option.splits)
next
  case Returned
  then show ?thesis using assms(2) by (simp add: init_inv_def init_step_def)
qed

lemma clear_markers_Inr:
  "clear_markers g ms st = Inr st' \<Longrightarrow>
   st'\<lparr>heap := heap st\<rparr> = st \<and>
   (\<forall>x. kind (heap st' x) = kind (heap st x)) \<and>
   (\<forall>x. x \<noteq> g \<longrightarrow> children (heap st' x) = children (heap st x)) \<and>
   set (children (heap st' g)) \<subseteq> set (children (heap st g))"
proof (induction ms arbitrary: st)
  case Nil then show ?case by simp
next
  case (Cons m ms)
  from Cons.prems obtain ids where
    r: "clear_markers g ms (st\<lparr>heap := fold dispose_mesh ids (heap st)\<rparr>) = Inr st'"
    by (auto simp: Let_def split: option.splits)
  let ?st1 = "st\<lparr>heap := fold dispose_mesh ids (heap st)\<rparr>"
  from Cons.IH [OF r] have ih: "st'\<lparr>heap := heap ?st1\<rparr> = ?st1"
    "\<forall>x. kind (heap st' x) = kind (heap ?st1 x)"
    "\<forall>x. x \<noteq> g \<longrightarrow> children (heap st' x) = children (heap ?st1 x)"
    "set (children (heap st' g)) \<subseteq> set (children (heap ?st1 g))"
    by blast+
  have "(st'\<lparr>heap := heap ?st1\<rparr>)\<lparr>heap := heap st\<rparr> = ?st1\<lparr>heap := heap st\<rparr>"
    using ih(1) by (rule arg_cong)
  then have 1: "st'\<lparr>heap := heap st\<rparr> = st" by simp
  have 2: "\<forall>x. kind (heap st' x) = kind (heap st x)" using ih(2) by simp
  have 3: "\<forall>x. x \<noteq> g \<longrightarrow> children (heap st' x) = children (heap st x)"
    using ih(3) by simp
  have 4: "set (children (heap st' g)) \<subseteq> set (children (heap st g))"
    using ih(4) by simp
  show ?case using 1 2 3 4 by blast
qed

lemma createMarkers_preserves:
  assumes "store_ok st" "createMarkers locs st = Inr st'"
  shows "store_ok st'" "init_pc st' = init_pc st" "scene st' = scene st"
    "has_group st \<Longrightarrow> has_group st'"
proof -
  have "store_ok st' \<and> init_pc st' = init_pc st \<and> scene st' = scene st \<and>
      (has_group st \<longrightarrow> has_group st')"
  proof (cases "scene st")
    case None
    then show ?thesis using assms by (simp add: createMarkers_def)
  next
    case (Some sc)
    show ?thesis
    proof (cases "find_group st sc")
      case None
      then show ?thesis using assms Some by (simp add: createMarkers_def)
    next
      case g: (Some g)
      note ga = group_allocated [OF assms(1) Some g] and fp = find_group_props [OF g]
      from assms(2) obtain stc where c: "clear_markers g (markers st) st = Inr stc"
        and e: "st' = fold (create_marker g) locs (stc\<lparr>markers := []\<rparr>)"
        by (auto simp: createMarkers_def Some g split: sum.splits)
      note cl = clear_markers_Inr [OF c]
      let ?c = "stc\<lparr>markers := []\<rparr>"
      have fe: "stc\<lparr>heap := heap st\<rparr> = st" using cl by blast
      have fr: "next_id stc = next_id st" "scene stc = scene st" "init_pc stc = init_pc st"
        using arg_cong [OF fe, of next_id] arg_cong [OF fe, of scene]
          arg_cong [OF fe, of init_pc] by simp_all
      have gc: "g < next_id ?c" using ga(1) fr by simp
      have okc: "store_ok ?c"
        unfolding store_ok_def
      proof (intro conjI allI impI ballI)
        fix i c assume i: "i < next_id ?c" and cc: "c \<in> set (children (heap ?c i))"
        have "c \<in> set (children (heap st i))"
          using cc cl by (cases "i = g") auto
        then show "c < next_id ?c" using assms(1) i fr by (auto simp: store_ok_def)
      next
        show "case scene ?c of None \<Rightarrow> True
              | Some sc \<Rightarrow> sc < next_id ?c \<and> kind (heap ?c sc) = Scene"
          using assms(1) cl fr by (auto simp: store_ok_def split: option.splits)
      qed
      have 1: "store_ok st'" unfolding e by (rule store_ok_fold_create [OF okc gc])
      note f = fold_create_frame [OF gc, of locs]
      have 2: "init_pc st' = init_pc st" "scene st' = scene st"
        unfolding e using arg_cong [OF f, of init_pc] arg_cong [OF f, of scene] fr by simp_all
      have hsc: "heap st' sc = heap ?c sc"
        unfolding e by (rule fold_create_old [OF gc]) (use ga fr in simp_all)
      have "find_group st' sc = find_group st sc"
      proof (rule find_group_frame [where extra="[]"])
        show "children (heap st' sc) = children (heap st sc) @ []"
          using hsc cl ga(3) by simp
        fix c assume "c \<in> set (children (heap st sc))"
        then have cn: "c < next_id ?c" using assms(1) ga(2) fr by (auto simp: store_ok_def)
        show "kind (heap st' c) = kind (heap st c)"
        proof (cases "c = g")
          case True
          then show ?thesis
            unfolding e using fold_create_group [OF gc, of locs] cl by simp
        next
          case False
          then show ?thesis
            unfolding e using fold_create_old [OF gc cn False, of locs] cl by simp
        qed
      qed simp
      moreover have "globeGroup st' = globeGroup st"
      proof -
        have "globeGroup stc = globeGroup st" using arg_cong [OF fe, of globeGroup] by simp
        then show ?thesis unfolding e using arg_cong [OF f, of globeGroup] by simp
      qed
      ultimately have "has_group st' = has_group st"
        by (simp add: has_group_def 2 Some cong: option.case_cong)
      then show ?thesis using 1 2 by simp
    qed
  qed
  then show "store_ok st'" "init_pc st' = init_pc st" "scene st' = scene st"
    "has_group st \<Longrightarrow> has_group st'" by simp_all
qed

lemma createLines_preserves:
  assumes "store_ok st"
  shows "store_ok (createLines locs conns now st)"
    "init_pc (createLines locs conns now st) = init_pc st"
    "scene (createLines locs conns now st) = scene st"
    "has_group st \<Longrightarrow> has_group (createLines locs conns now st)"
proof -
  show "store_ok (createLines locs conns now st)" by (rule store_ok_createLines [OF assms])
  have "init_pc (createLines locs conns now st) = init_pc st \<and>
      scene (createLines locs conns now st) = scene st \<and>
      (has_group st \<longrightarrow> has_group (createLines locs conns now st))"
  proof (cases "scene st")
    case None
    then show ?thesis by (simp add: createLines_def)
  next
    case (Some sc)
    show ?thesis
    proof (cases "find_group st sc")
      case None
      then show ?thesis using Some by (simp add: createLines_def)
    next
      case g: (Some g)
      note ga = group_allocated [OF assms Some g]
      have "find_group (createLines locs conns now st) sc = Some g"
        by (rule createLines_find_group [OF assms Some g])
      moreover have "scene (createLines locs conns now st) = Some sc"
        by (rule createLines_schedules(4) [OF assms Some g])
      moreover have "init_pc (createLines locs conns now st) = init_pc st"
        "globeGroup (createLines locs conns now st) = globeGroup st"
        by (simp_all add: createLines_result [OF Some g] lines_rebuilt_raf(3,4) [OF ga(1)])
      ultimately show ?thesis using Some g by (simp add: has_group_def split: option.splits)
    qed
  qed
  then show "init_pc (createLines locs conns now st) = init_pc st"
    "scene (createLines locs conns now st) = scene st"
    "has_group st \<Longrightarrow> has_group (createLines locs conns now st)" by simp_all
qed

lemma init_inv_child:
  assumes "init_inv st" "yielded st" "store_ok st'" "init_pc st' = init_pc st"
    "scene st' = scene st" "has_group st \<Longrightarrow> has_group st'"
  shows "init_inv st'"
  using assms by (auto simp: init_inv_def yielded_def)

lemma markers_inv_ok: "markers_inv st \<Longrightarrow> markers_ok st"
  by (simp add: markers_inv_def markers_ok_def)

lemma marker_shapedD:
  assumes "marker_shaped h m"
  obtains s l where "children (h m) = [s, l]" "kind (h s) = Mesh" "children (h s) = []"
    "kind (h l) = PointLight" "children (h l) = []"
  using assms by (auto simp: marker_shaped_def split: list.splits)

lemma marker_shaped_cong:
  assumes "marker_shaped h m" "children (h' m) = children (h m)"
    "\<And>c. c \<in> set (children (h m)) \<Longrightarrow> kind (h' c) = kind (h c) \<and> children (h' c) = children (h c)"
  shows "marker_shaped h' m"
proof -
  from assms(1) obtain s l where *: "children (h m) = [s, l]" "kind (h s) = Mesh"
    "children (h s) = []" "kind (h l) = PointLight" "children (h l) = []"
    by (rule marker_shapedD)
  show ?thesis using * assms(2) assms(3) [of s] assms(3) [of l]
    by (simp add: marker_shaped_def)
qed

lemma markers_inv_createMarkers:
  assumes "store_ok st" "markers_inv st" "createMarkers locs st = Inr st'"
  shows "markers_inv st'"
proof (cases "scene st")
  case None
  then show ?thesis using assms by (simp add: createMarkers_def)
next
  case (Some sc)
  show ?thesis
  proof (cases "find_group st sc")
    case None
    then show ?thesis using assms Some by (simp add: createMarkers_def)
  next
    case g: (Some g)
    note ga = group_allocated [OF assms(1) Some g]
    have e: "st' = rebuilt g locs st"
      using createMarkers_result [OF assms(1) markers_inv_ok [OF assms(2)] Some g, of locs] assms(3)
      by simp
    note rm = rebuilt_markers [OF ga(1), where locs=locs]
    have gg: "globeGroup st' = globeGroup st"
      unfolding e rebuilt_def
      using arg_cong [OF fold_create_frame [of g "cleared g st" locs], of globeGroup] ga(1)
      by (simp add: cleared_def)
    have 1: "\<forall>m\<in>set (markers st'). m < next_id st' \<and> kind (heap st' m) = Group \<and>
        marker_shaped (heap st') m"
    proof
      fix m assume m: "m \<in> set (markers st')"
      from rebuilt_marker_at [OF ga(1) m [unfolded e]] rebuilt_markers_ok [OF ga(1), of locs] m
      show "m < next_id st' \<and> kind (heap st' m) = Group \<and> marker_shaped (heap st') m"
        by (auto simp: e rm(2) marker_object_def markers_ok_def)
    qed
    have fresh: "\<forall>m\<in>set (markers st'). next_id st \<le> m"
      by (auto simp: e rm(1) in_new_ids)
    have n': "next_id st' = next_id st + 3 * length locs" by (simp add: e rm(2))
    have 2: "case globeGroup st' of None \<Rightarrow> True
        | Some g \<Rightarrow> g < next_id st' \<and> kind (heap st' g) = Group \<and> g \<notin> set (markers st')"
      using assms(2) fresh rebuilt_old_fields(1) [OF ga(1), of _ locs]
      by (auto simp: gg markers_inv_def n' e [symmetric] split: option.splits)
    have "find_group st' sc = Some g" unfolding e by (rule rebuilt_find_group [OF assms(1) Some g])
    moreover have "scene st' = Some sc" by (simp add: e rm(3) Some)
    moreover have "g \<notin> set (markers st')" using fresh ga(1) by auto
    ultimately show ?thesis using 1 2 by (simp add: markers_inv_def)
  qed
qed

lemma markers_inv_createLines:
  assumes "store_ok st" "markers_inv st"
  shows "markers_inv (createLines locs conns now st)"
proof (cases "scene st")
  case None
  then show ?thesis using assms by (simp add: createLines_def)
next
  case (Some sc)
  show ?thesis
  proof (cases "find_group st sc")
    case None
    then show ?thesis using assms Some by (simp add: createLines_def)
  next
    case g: (Some g)
    note ga = group_allocated [OF assms(1) Some g] and fp = find_group_props [OF g]
    let ?st' = "createLines locs conns now st"
    have e: "?st' = animate now (lines_rebuilt g locs conns st)"
      by (rule createLines_result [OF Some g])
    note of = lines_rebuilt_old_fields [OF ga(1), where locs=locs and conns=conns]
    have mk: "markers ?st' = markers st" "globeGroup ?st' = globeGroup st"
      "next_id st \<le> next_id ?st'"
      by (simp_all add: e lines_rebuilt_raf [OF ga(1)] lines_rebuilt_facts(2) [OF ga(1)])
    have gm: "g \<notin> set (markers st)" using assms(2) Some g by (simp add: markers_inv_def)
    have 1: "\<forall>m\<in>set (markers ?st'). m < next_id ?st' \<and> kind (heap ?st' m) = Group \<and>
        marker_shaped (heap ?st') m"
    proof
      fix m assume "m \<in> set (markers ?st')"
      then have m: "m \<in> set (markers st)" by (simp add: mk)
      then have mm: "m < next_id st" "kind (heap st m) = Group" "marker_shaped (heap st) m"
        using assms(2) by (simp_all add: markers_inv_def)
      have mg: "m \<noteq> g" using m gm by auto
      have "marker_shaped (heap ?st') m"
      proof (rule marker_shaped_cong [OF mm(3)])
        show "children (heap ?st' m) = children (heap st m)"
          by (simp add: e of(2) [OF mm(1) mg])
        fix c assume c: "c \<in> set (children (heap st m))"
        then have cn: "c < next_id st" using assms(1) mm(1) by (auto simp: store_ok_def)
        have "kind (heap st c) \<noteq> Group"
          using mm(3) c by (auto elim!: marker_shapedD)
        then have "c \<noteq> g" using fp(2) by auto
        then show "kind (heap ?st' c) = kind (heap st c) \<and>
            children (heap ?st' c) = children (heap st c)"
          by (simp add: e of(1,2) [OF cn])
      qed
      then show "m < next_id ?st' \<and> kind (heap ?st' m) = Group \<and> marker_shaped (heap ?st') m"
        using mm mk(3) by (simp add: e of(1) [OF mm(1)])
    qed
    have 2: "case globeGroup ?st' of None \<Rightarrow> True
        | Some g \<Rightarrow> g < next_id ?st' \<and> kind (heap ?st' g) = Group \<and> g \<notin> set (markers ?st')"
    proof -
      have kk: "kind (heap ?st' i) = kind (heap st i)" if "i < next_id st" for i
        using that by (simp add: e of(1))
      show ?thesis
        using assms(2) mk(3) kk by (auto simp: mk(1,2) markers_inv_def split: option.splits)
    qed
    have "find_group ?st' sc = Some g" by (rule createLines_find_group [OF assms(1) Some g])
    moreover have "scene ?st' = Some sc" by (rule createLines_schedules(4) [OF assms(1) Some g])
    ultimately show ?thesis using 1 2 gm by (simp add: markers_inv_def mk(1))
  qed
qed


lemma markers_inv_alloc:
  assumes "store_ok st" "markers_inv st"
  shows "markers_inv (snd (alloc obj st))"
proof -
  let ?st' = "snd (alloc obj st)"
  have h: "heap ?st' x = heap st x" if "x < next_id st" for x
    using that by (simp add: alloc_def)
  have o: "markers ?st' = markers st" "globeGroup ?st' = globeGroup st" "scene ?st' = scene st"
    "next_id ?st' = Suc (next_id st)"
    by (simp_all add: alloc_def)
  have 1: "\<forall>m\<in>set (markers ?st'). m < next_id ?st' \<and> kind (heap ?st' m) = Group \<and>
      marker_shaped (heap ?st') m"
  proof
    fix m assume "m \<in> set (markers ?st')"
    then have mm: "m < next_id st" "kind (heap st m) = Group" "marker_shaped (heap st) m"
      using assms(2) by (simp_all add: markers_inv_def o)
    have "marker_shaped (heap ?st') m"
    proof (rule marker_shaped_cong [OF mm(3)])
      show "children (heap ?st' m) = children (heap st m)" by (simp add: h mm(1))
      fix c assume "c \<in> set (children (heap st m))"
      then have "c < next_id st" using assms(1) mm(1) by (auto simp: store_ok_def)
      then show "kind (heap ?st' c) = kind (heap st c) \<and>
          children (heap ?st' c) = children (heap st c)" by (simp add: h)
    qed
    then show "m < next_id ?st' \<and> kind (heap ?st' m) = Group \<and> marker_shaped (heap ?st') m"
      using mm by (simp add: h o)
  qed
  have 2: "case globeGroup ?st' of None \<Rightarrow> True
      | Some g \<Rightarrow> g < next_id ?st' \<and> kind (heap ?st' g) = Group \<and> g \<notin> set (markers ?st')"
    using assms(2) by (auto simp: markers_inv_def o h split: option.splits)
  have 3: "find_group ?st' sc = find_group st sc" if "scene st = Some sc" for sc
  proof (rule find_group_frame [where extra="[]"])
    have sc: "sc < next_id st" using assms(1) that by (simp add: store_ok_def)
    show "children (heap ?st' sc) = children (heap st sc) @ []" by (simp add: h sc)
    fix c assume "c \<in> set (children (heap st sc))"
    then have "c < next_id st" using assms(1) sc by (auto simp: store_ok_def)
    then show "kind (heap ?st' c) = kind (heap st c)" by (simp add: h)
  qed simp
  show ?thesis
    using 1 2 3 assms(2) by (auto simp: markers_inv_def o split: option.splits)
qed


lemma markers_inv_add:
  assumes "store_ok st" "markers_inv st" "parent (heap st c) = None" "c \<noteq> p"
    and "c \<notin> set (markers st)" "p \<notin> set (markers st)"
    and "kind (heap st p) = Scene \<or> kind (heap st p) = Group"
  shows "markers_inv (st\<lparr>heap := add p c (heap st)\<rparr>)"
proof -
  let ?h = "add p c (heap st)"
  have k: "kind (?h x) = kind (heap st x)" for x
    using assms(3,4) by (simp add: add_def Let_def)
  have ch: "children (?h x) = (if x = p then children (heap st p) @ [c] else children (heap st x))" for x
    using assms(3,4) by (simp add: add_def Let_def)
  have 1: "marker_shaped ?h m" if "m \<in> set (markers st)" for m
  proof -
    have mm: "marker_shaped (heap st) m" using assms(2) that by (simp add: markers_inv_def)
    have mp: "m \<noteq> p" using that assms(6) by auto
    show ?thesis
    proof (rule marker_shaped_cong [OF mm])
      show "children (?h m) = children (heap st m)" using mp by (simp add: ch)
      fix x assume "x \<in> set (children (heap st m))"
      then have "kind (heap st x) = Mesh \<or> kind (heap st x) = PointLight"
        using mm by (auto elim!: marker_shapedD)
      then have "x \<noteq> p" using assms(7) by auto
      then show "kind (?h x) = kind (heap st x) \<and> children (?h x) = children (heap st x)"
        by (simp add: k ch)
    qed
  qed
  have 3: "g \<notin> set (markers st)"
    if sc: "scene st = Some sc" and g: "List.find (\<lambda>x. kind (?h x) = Group) (children (?h sc)) = Some g"
    for sc g
  proof -
    have old: "find_group st sc = Some g' \<Longrightarrow> g' \<notin> set (markers st)" for g'
      using assms(2) sc by (simp add: markers_inv_def)
    show ?thesis
    proof (cases "sc = p")
      case True
      from g have "g = c \<or> find_group st sc = Some g"
        by (auto simp: True ch k find_append find_group_def split: option.splits if_splits)
      then show ?thesis using old assms(5) by auto
    next
      case False
      then show ?thesis using g old by (simp add: ch k find_group_def)
    qed
  qed
  show ?thesis
    using assms(2) 1 3
    by (auto simp: markers_inv_def k find_group_def split: option.splits)
qed

lemma structure_invariants:
  assumes "\<And>x. kind (heap st' x) = kind (heap st x)"
    and "\<And>x. children (heap st' x) = children (heap st x)"
    and "\<And>x. parent (heap st' x) = parent (heap st x)"
    and "next_id st' = next_id st" "scene st' = scene st" "init_pc st' = init_pc st"
    and "containerRef st' = containerRef st" "markers st' = markers st"
    and "globeGroup st' = globeGroup st"
  shows "store_ok st' = store_ok st" "has_group st' = has_group st"
    "init_inv st' = init_inv st" "markers_inv st' = markers_inv st"
proof -
  show 1: "store_ok st' = store_ok st"
    by (simp add: store_ok_def assms cong: option.case_cong)
  have fg: "find_group st' sc = find_group st sc" for sc
    by (simp add: find_group_def assms)
  show 2: "has_group st' = has_group st"
    by (simp add: has_group_def assms fg cong: option.case_cong)
  have 3: "empty_scene st' = empty_scene st"
    by (simp add: empty_scene_def assms cong: option.case_cong)
  show "init_inv st' = init_inv st"
    by (simp add: init_inv_def 1 2 3 assms cong: option.case_cong pc.case_cong)
  have "marker_shaped (heap st') m = marker_shaped (heap st) m" for m
    by (simp add: marker_shaped_def assms cong: list.case_cong)
  then show "markers_inv st' = markers_inv st"
    by (simp add: markers_inv_def assms fg cong: option.case_cong)
qed


lemma markers_inv_alloc_add:
  assumes "store_ok st" "markers_inv st" "children obj = []" "parent obj = None"
    and "p < next_id st" "p \<notin> set (markers st)"
    and "kind (heap st p) = Scene \<or> kind (heap st p) = Group"
  shows "markers_inv (alloc_add p obj st)"
proof -
  let ?st1 = "snd (alloc obj st)"
  have ok1: "store_ok ?st1" by (rule store_ok_alloc [OF assms(1,3)])
  have m1: "markers_inv ?st1" by (rule markers_inv_alloc [OF assms(1,2)])
  have fresh: "next_id st \<notin> set (markers st)"
    using assms(2) by (auto simp: markers_inv_def)
  show ?thesis
    unfolding alloc_add_def
    by (rule markers_inv_add [OF ok1 m1])
       (use assms(4-7) fresh in \<open>auto simp: alloc_def\<close>)
qed

lemma markers_inv_set_group:
  assumes "markers_inv st" "g < next_id st" "kind (heap st g) = Group" "g \<notin> set (markers st)"
  shows "markers_inv (st\<lparr>globeGroup := Some g, init_pc := q\<rparr>)"
  using assms by (simp add: markers_inv_def find_group_def cong: option.case_cong)

lemma markers_inv_set_scene:
  assumes "markers_inv st" "children (heap st sc) = []"
  shows "markers_inv (st\<lparr>scene := Some sc, init_pc := q\<rparr>)"
  using assms by (simp add: markers_inv_def find_group_def cong: option.case_cong)

lemma markers_inv_step:
  assumes "camera_only u" "init_inv st" "markers_inv st"
  shows "markers_inv (init_step u st)"
proof -
  have ok: "store_ok st" using assms(2) by (simp add: init_inv_def)
  have same: "markers_inv st'"
    if "markers_inv st0" "heap st' = heap st0" "next_id st' = next_id st0" "scene st' = scene st0"
      "markers st' = markers st0" "globeGroup st' = globeGroup st0" for st' st0
    using that by (simp add: markers_inv_def find_group_def cong: option.case_cong)
  show ?thesis
  proof (cases "init_pc st")
    case NotStarted
    then show ?thesis by (intro same [OF assms(3)]) (simp_all add: init_step_def)
  next
    case CreateScene
    let ?st1 = "snd (alloc (new_object Scene) st)"
    have e: "init_step u st = ?st1\<lparr>scene := Some (next_id st), init_pc := CreateCamera\<rparr>"
      using CreateScene by (simp add: init_step_def alloc_def)
    have "markers_inv ?st1" by (rule markers_inv_alloc [OF ok assms(3)])
    then show ?thesis
      unfolding e by (rule markers_inv_set_scene) (simp add: alloc_def new_object_def)
  next
    case CreateCamera
    then show ?thesis
      by (intro same [OF assms(3)]) (simp_all add: init_step_def split: option.splits prod.splits)
  next
    case CreateRenderer
    then show ?thesis
      by (intro same [OF assms(3)]) (simp_all add: init_step_def split: option.splits prod.splits)
  next
    case CreateGroup
    let ?st1 = "snd (alloc (new_object Group) st)"
    have e: "init_step u st = ?st1\<lparr>globeGroup := Some (next_id st), init_pc := AddGroup\<rparr>"
      using CreateGroup by (simp add: init_step_def alloc_def)
    have fresh: "next_id st \<notin> set (markers st)" using assms(3) by (auto simp: markers_inv_def)
    have "markers_inv ?st1" by (rule markers_inv_alloc [OF ok assms(3)])
    then show ?thesis
      unfolding e
      by (rule markers_inv_set_group) (use fresh in \<open>simp_all add: alloc_def new_object_def\<close>)
  next
    case AddGroup
    from assms(2) AddGroup obtain sc g where sg: "scene st = Some sc" "globeGroup st = Some g"
      and g: "g < next_id st" "kind (heap st g) = Group" "parent (heap st g) = None"
      by (auto simp: init_inv_def empty_scene_def split: option.splits)
    have ksc: "kind (heap st sc) = Scene" using ok sg(1) by (simp add: store_ok_def)
    have gm: "g \<notin> set (markers st)" using assms(3) sg(2) by (simp add: markers_inv_def)
    have scm: "sc \<notin> set (markers st)" using assms(3) ksc by (auto simp: markers_inv_def)
    have "markers_inv (st\<lparr>heap := add sc g (heap st)\<rparr>)"
      by (rule markers_inv_add [OF ok assms(3) g(3) _ gm scm]) (use ksc g(2) in auto)
    then show ?thesis
      by (rule same) (use AddGroup sg in \<open>simp_all add: init_step_def\<close>)
  next
    case AwaitTexture
    then show ?thesis by (intro same [OF assms(3)]) (simp_all add: init_step_def)
  next
    case CreateSphere
    show ?thesis
    proof (cases "globeGroup st")
      case None
      then show ?thesis using CreateSphere
        by (intro same [OF assms(3)]) (simp_all add: init_step_def)
    next
      case (Some g)
      then have g: "g < next_id st" "kind (heap st g) = Group" "g \<notin> set (markers st)"
        using assms(3) by (simp_all add: markers_inv_def)
      have e: "init_step u st
          = (alloc_add g (new_object Mesh) st)\<lparr>sphere := Some (next_id st), init_pc := AddLights\<rparr>"
        using CreateSphere Some by (simp add: init_step_def alloc_def alloc_add_def)
      have "markers_inv (alloc_add g (new_object Mesh) st)"
        by (rule markers_inv_alloc_add [OF ok assms(3) _ _ g(1,3)])
           (simp_all add: new_object_def g(2))
      then show ?thesis unfolding e by (rule same) simp_all
    qed
  next
    case AddLights
    show ?thesis
    proof (cases "scene st")
      case None
      then show ?thesis using AddLights
        by (intro same [OF assms(3)]) (simp_all add: init_step_def)
    next
      case (Some sc)
      let ?a = "(new_object AmbientLight)\<lparr>color := ''#ffffff''\<rparr>"
      let ?p = "(new_object PointLight)\<lparr>color := ''#ffffff'', position := Vector3 5 3 5\<rparr>"
      let ?st1 = "alloc_add sc ?a st"
      let ?st2 = "alloc_add sc ?p ?st1"
      have sc: "sc < next_id st" "kind (heap st sc) = Scene"
        using ok Some by (simp_all add: store_ok_def)
      have scm: "sc \<notin> set (markers st)" using assms(3) sc(2) by (auto simp: markers_inv_def)
      have m1: "markers_inv ?st1"
        by (rule markers_inv_alloc_add [OF ok assms(3) _ _ sc(1) scm])
           (simp_all add: new_object_def sc(2))
      have ok1: "store_ok ?st1"
        by (rule alloc_add_inv(1) [OF ok]) (simp_all add: new_object_def)
      have sc1: "sc < next_id ?st1" "kind (heap ?st1 sc) = Scene" "sc \<notin> set (markers ?st1)"
        using sc scm by (simp_all add: alloc_add_def alloc_def add_def Let_def new_object_def)
      have m2: "markers_inv ?st2"
        by (rule markers_inv_alloc_add [OF ok1 m1 _ _ sc1(1,3)])
           (use sc1(2) in \<open>simp_all add: new_object_def\<close>)
      have e: "init_step u st = ?st2\<lparr>init_pc := CreateControls\<rparr>"
        using AddLights Some by (simp add: init_step_def alloc_def alloc_add_def Let_def)
      show ?thesis unfolding e by (rule same [OF m2]) simp_all
    qed
  next
    case CreateControls
    then show ?thesis by (intro same [OF assms(3)]) (simp_all add: init_step_def)
  next
    case ForceRender
    then show ?thesis by (intro same [OF assms(3)]) (simp_all add: init_step_def)
  next
    case ScheduleFocus
    then show ?thesis by (intro same [OF assms(3)]) (simp_all add: init_step_def)
  next
    case StartAnimate
    have "markers_inv (host_animate u st)"
    proof (rule same [OF assms(3)])
      have *: "u s = s\<lparr>camera := camera (u s), controls := controls (u s)\<rparr>" for s
        using assms(1) by (simp add: camera_only_def)
      show "markers (host_animate u st) = markers st"
        using arg_cong [OF *, of markers]
        by (simp add: host_animate_def requestAnimationFrame_def Let_def)
      show "globeGroup (host_animate u st) = globeGroup st"
        using arg_cong [OF *, of globeGroup]
        by (simp add: host_animate_def requestAnimationFrame_def Let_def)
    qed (simp_all add: host_animate_heap [OF assms(1)])
    then show ?thesis
      by (rule same) (use StartAnimate in \<open>simp_all add: init_step_def\<close>)
  next
    case Returned
    then show ?thesis using assms(3) by (simp add: init_step_def)
  qed
qed

lemma handleMarkerHover_structure:
  assumes "handleMarkerHover i b st = Inr st'"
  shows "kind (heap st' x) = kind (heap st x)" "children (heap st' x) = children (heap st x)"
    "parent (heap st' x) = parent (heap st x)"
    "next_id st' = next_id st" "scene st' = scene st" "init_pc st' = init_pc st"
    "containerRef st' = containerRef st" "markers st' = markers st"
    "globeGroup st' = globeGroup st"
  using assms
  by (auto simp: handleMarkerHover_def set_sphere_color_def Let_def
      split: if_splits option.splits list.splits)

lemma reachable_invariants:
  assumes "camera_only u" "reachable u st"
  shows "init_inv st \<and> markers_inv st"
  using assms(2)
proof (induction rule: reachable.induct)
  case (mounted container)
  show ?case by (simp add: init_inv_initial) (simp add: markers_inv_def initial_def)
next
  case (statement st)
  then show ?case by (simp add: init_inv_step [OF assms(1)] markers_inv_step [OF assms(1)])
next
  case (texture_loaded st)
  then show ?case by (simp add: init_inv_step [OF assms(1)] markers_inv_step [OF assms(1)])
next
  case (texture_failed st)
  have "init_inv (st\<lparr>init_pc := Returned\<rparr>)"
    using texture_failed
    by (auto simp: init_inv_def store_ok_def has_group_def find_group_def cong: option.case_cong)
  moreover have "markers_inv (st\<lparr>init_pc := Returned\<rparr>)"
    using texture_failed.IH by (simp add: markers_inv_def find_group_def cong: option.case_cong)
  ultimately show ?case by simp
next
  case (markers_rebuild st locations st')
  have ok: "store_ok st" using markers_rebuild.IH by (simp add: init_inv_def)
  have "init_inv st'"
    using markers_rebuild.IH
    by (intro init_inv_child [OF _ markers_rebuild.hyps(2)
          createMarkers_preserves [OF ok markers_rebuild.hyps(3)]]) simp
  moreover have "markers_inv st'"
    using markers_rebuild.IH
    by (intro markers_inv_createMarkers [OF ok _ markers_rebuild.hyps(3)]) simp
  ultimately show ?case by simp
next
  case (lines_rebuild st locations connections now)
  have ok: "store_ok st" using lines_rebuild.IH by (simp add: init_inv_def)
  have "init_inv (createLines locations connections now st)"
    using lines_rebuild.IH
    by (intro init_inv_child [OF _ lines_rebuild.hyps(2) createLines_preserves [OF ok]]) simp
  moreover have "markers_inv (createLines locations connections now st)"
    using lines_rebuild.IH by (intro markers_inv_createLines [OF ok]) simp
  ultimately show ?case by simp
next
  case (hover st index isHovered st')
  note h = handleMarkerHover_structure [OF hover.hyps(3)]
  show ?case
    using hover.IH structure_invariants(3,4) [of st' st, OF h] by simp
qed

lemma reachable_init_inv:
  assumes "camera_only u" "reachable u st"
  shows "init_inv st"
  using reachable_invariants [OF assms] by simp

text \<open>
  So the standing assumptions of the marker layer's results hold in every reachable
  state, and there a marker rebuild never fails.
\<close>

lemma reachable_ok:
  assumes "camera_only u" "reachable u st"
  shows "store_ok st" "markers_ok st"
  using reachable_invariants [OF assms] by (simp_all add: init_inv_def markers_inv_ok)

lemma reachable_rebuild_returns:
  assumes "camera_only u" "reachable u st"
  shows "\<exists>st'. createMarkers locs st = Inr st'"
proof (cases "scene st")
  case None
  then show ?thesis by (simp add: createMarkers_def)
next
  case (Some sc)
  show ?thesis
  proof (cases "find_group st sc")
    case None
    then show ?thesis using Some by (simp add: createMarkers_def)
  next
    case g: (Some g)
    show ?thesis
      using createMarkers_result [OF reachable_ok [OF assms] Some g, of locs] by blast
  qed
qed

text \<open>
  C1, as stated, fails: \<open>initScene\<close> assigns the scene handle first (line 72) and adds the
  Globe Group later (line 97).  After the first assignment the handle is set and the scene
  has no grouping child.
\<close>

theorem C1_counterexample:
  "reachable (\<lambda>s. s) after_create_scene \<and> init_pc after_create_scene = CreateCamera \<and>
   scene after_create_scene = Some 0 \<and> children (heap after_create_scene 0) = [] \<and>
   find_group after_create_scene 0 = None"
proof -
  let ?s0 = "initial (Some (800, 600))" and ?u = "\<lambda>s::state. s"
  have r0: "reachable ?u ?s0" by (rule reachable.mounted)
  have p0: "init_pc ?s0 = NotStarted" by (simp add: initial_def)
  have r1: "reachable ?u (init_step ?u ?s0)"
    by (rule reachable.statement [OF r0]) (simp_all add: p0)
  have p1: "init_pc (init_step ?u ?s0) = CreateScene" by (simp add: init_step_def initial_def)
  have r2: "reachable ?u (init_step ?u (init_step ?u ?s0))"
    by (rule reachable.statement [OF r1]) (simp_all add: p1)
  have "init_pc after_create_scene = CreateCamera \<and>
   scene after_create_scene = Some 0 \<and> children (heap after_create_scene 0) = [] \<and>
   find_group after_create_scene 0 = None"
    by (simp add: after_create_scene_def init_step_def initial_def alloc_def new_object_def
        find_group_def)
  then show ?thesis using r2 by (simp add: after_create_scene_def)
qed

text \<open>
  C1, amended.  The scene handle is assigned before the Globe Group is added, but both
  happen in one synchronous run of \<open>initScene\<close>, which no other callback can interrupt.  In
  every reachable state in which \<open>initScene\<close> has not started, is suspended on the texture
  load, or is over, the scene handle is set only if the scene contains the Globe Group: a
  child layer's rebuild, which can run only in such a state, finds it by its search.
\<close>

theorem C1_group_present_when_children_run:
  assumes "camera_only orbit_update" and "reachable orbit_update st"
    and "yielded st" and "scene st = Some sc"
  shows "\<exists>g. globeGroup st = Some g \<and> find_group st sc = Some g \<and>
           g \<in> set (children (heap st sc)) \<and> kind (heap st g) = Group"
proof -
  have "init_inv st" by (rule reachable_init_inv [OF assms(1,2)])
  then have "has_group st"
    using assms(3,4) by (auto simp: init_inv_def yielded_def)
  then obtain g where "find_group st sc = Some g" "globeGroup st = Some g"
    using assms(4) by (auto simp: has_group_def split: option.splits)
  then show ?thesis using find_group_props by metis
qed

lemma scene0_reachable: "reachable (\<lambda>s. s) scene0"
proof -
  let ?u = "\<lambda>s::state. s"
  let ?s0 = "initial (Some (800, 600))"
  let ?s1 = "init_step ?u ?s0"
  let ?s2 = "init_step ?u ?s1"
  let ?s3 = "init_step ?u ?s2"
  let ?s4 = "init_step ?u ?s3"
  let ?s5 = "init_step ?u ?s4"
  let ?s6 = "init_step ?u ?s5"
  have p: "init_pc ?s0 = NotStarted" "init_pc ?s1 = CreateScene" "init_pc ?s2 = CreateCamera"
    "init_pc ?s3 = CreateRenderer" "init_pc ?s4 = CreateGroup" "init_pc ?s5 = AddGroup"
    by (simp_all add: init_step_def initial_def alloc_def)
  have "reachable ?u ?s0" by (rule reachable.mounted)
  then have "reachable ?u ?s1" by (rule reachable.statement) (simp_all add: p)
  then have "reachable ?u ?s2" by (rule reachable.statement) (simp_all add: p)
  then have "reachable ?u ?s3" by (rule reachable.statement) (simp_all add: p)
  then have "reachable ?u ?s4" by (rule reachable.statement) (simp_all add: p)
  then have "reachable ?u ?s5" by (rule reachable.statement) (simp_all add: p)
  then have "reachable ?u ?s6" by (rule reachable.statement) (simp_all add: p)
  moreover have "?s6 = scene0"
    by (simp add: init_step_def initial_def alloc_def add_def new_object_def scene0_def
        fun_upd_twist)
  ultimately show ?thesis by simp
qed

theorem C1_group_present_when_children_run_witness:
  "camera_only (\<lambda>s. s) \<and> reachable (\<lambda>s. s) scene0 \<and> yielded scene0 \<and> scene scene0 = Some 0 \<and>
   (\<exists>g. globeGroup scene0 = Some g \<and> find_group scene0 0 = Some g \<and>
      g \<in> set (children (heap scene0 0)) \<and> kind (heap scene0 g) = Group)"
proof -
  have c: "camera_only (\<lambda>s. s)" by (simp add: camera_only_def)
  have y: "yielded scene0" by (simp add: yielded_def scene0_def)
  show ?thesis
    using C1_group_present_when_children_run [OF c scene0_reachable y scene0_ok(3)]
      c scene0_reachable y scene0_ok(3) by simp
qed

section \<open>Line layer: animation loops\<close>

text \<open>Every rebuild with the scene and the group present starts one more loop.\<close>

lemma createLines_adds_loop:
  assumes "store_ok st" "scene st = Some sc" "find_group st sc = Some g"
  shows "lines_loops (createLines locs conns now st) = Suc (lines_loops st)"
  by (simp add: lines_loops_def createLines_schedules(1) [OF assms])

lemma twice_facts:
  "raf_queue twice = [(1, LinesAnimate), (2, LinesAnimate)]"
  "animationFrameId twice = Some 2"
  "scene twice = Some 0"
  "find_group twice 0 = Some 1"
proof -
  let ?st1 = "createLines [] [] 0 scene0"
  note a = createLines_schedules [OF scene0_ok(1,3,4), of "[]" "[]" 0]
  have ok1: "store_ok ?st1" by (rule store_ok_createLines [OF scene0_ok(1)])
  have fg1: "find_group ?st1 0 = Some 1" by (rule createLines_find_group [OF scene0_ok(1,3,4)])
  note b = createLines_schedules [OF ok1 a(4) fg1, of "[]" "[]" 16]
  have q0: "raf_queue scene0 = []" "raf_next scene0 = 1" by (simp_all add: scene0_def)
  show "raf_queue twice = [(1, LinesAnimate), (2, LinesAnimate)]"
    unfolding twice_def by (simp add: b(1) a(1,2) q0)
  show "animationFrameId twice = Some 2"
    unfolding twice_def by (simp add: b(3) a(2) q0)
  show "scene twice = Some 0" unfolding twice_def by (rule b(4))
  show "find_group twice 0 = Some 1"
    unfolding twice_def by (rule createLines_find_group [OF ok1 a(4) fg1])
qed

text \<open>
  C6 fails on the code: \<open>createLines\<close> calls \<open>animate\<close> on every rebuild and never cancels
  the frame requested before.  The state after two rebuilds with no teardown in between is
  reachable, and in it two line-layer callbacks wait for the next frame; each of them
  requests itself again, so two loops go on; and \<open>onUnmounted\<close>, which cancels the one
  frame id it has, leaves one loop running.
\<close>

lemma twice_reachable: "reachable (\<lambda>s. s) twice"
proof -
  let ?st1 = "createLines [] [] 0 scene0"
  have y0: "yielded scene0" by (simp add: yielded_def scene0_def)
  have r1: "reachable (\<lambda>s. s) ?st1"
    by (rule reachable.lines_rebuild [OF scene0_reachable y0])
  have "init_pc ?st1 = init_pc scene0"
    by (rule createLines_preserves(2) [OF scene0_ok(1)])
  then have y1: "yielded ?st1" using y0 by (simp add: yielded_def)
  show ?thesis unfolding twice_def by (rule reachable.lines_rebuild [OF r1 y1])
qed

theorem C6_two_loops_after_two_rebuilds:
  "reachable (\<lambda>s. s) (createLines [] [] 16 (createLines [] [] 0 scene0)) \<and>
   lines_loops scene0 = 0 \<and>
   lines_loops (createLines [] [] 0 scene0) = 1 \<and>
   lines_loops (createLines [] [] 16 (createLines [] [] 0 scene0)) = 2 \<and>
   lines_loops (browser_frame (\<lambda>s. s) 32 (createLines [] [] 16 (createLines [] [] 0 scene0))) = 2 \<and>
   lines_loops (lines_onUnmounted (createLines [] [] 16 (createLines [] [] 0 scene0))) = 1"
proof -
  note a = createLines_schedules [OF scene0_ok(1,3,4), of "[]" "[]" 0]
  have q0: "raf_queue scene0 = []" "raf_next scene0 = 1" by (simp_all add: scene0_def)
  have 0: "lines_loops scene0 = 0" by (simp add: lines_loops_def q0)
  have 1: "lines_loops (createLines [] [] 0 scene0) = 1" by (simp add: lines_loops_def a(1) q0)
  have 2: "lines_loops twice = 2" by (simp add: lines_loops_def twice_facts)
  have 3: "lines_loops (browser_frame (\<lambda>s. s) 32 twice) = 2"
    by (simp add: lines_loops_def browser_frame_def run_callback_def twice_facts)
  have 4: "lines_loops (lines_onUnmounted twice) = 1"
    by (simp add: lines_loops_def lines_onUnmounted_def twice_facts cancelAnimationFrame_def Let_def)
  show ?thesis using 0 1 2 3 4 twice_reachable by (simp add: twice_def)
qed

end
